theory Spec2Isabelle
  imports Complex_Main "HOL-Library.Signed_Division"
begin

section \<open>Machine integers\<close>

text \<open>
  The C++ type \<^verbatim>\<open>int\<close> is modelled by HOL integers that lie in the 32-bit two's
  complement range. Where the source computes with them, the wrap-around of the
  result is written out with \<open>wrap_int\<close>; the C++ operators \<^verbatim>\<open>/\<close> and \<^verbatim>\<open>%\<close>
  truncate towards zero and are \<open>sdiv\<close> and \<open>smod\<close>.
\<close>

definition INT_MIN :: int where
  "INT_MIN = - 2147483648"

definition INT_MAX :: int where
  "INT_MAX = 2147483647"

definition is_int :: "int \<Rightarrow> bool" where
  "is_int v \<longleftrightarrow> INT_MIN \<le> v \<and> v \<le> INT_MAX"

definition wrap_int :: "int \<Rightarrow> int" where
  "wrap_int v = (v + 2147483648) mod 4294967296 - 2147483648"

section \<open>GridPosition (unnamed/part_001, lines 55-67)\<close>

record GridCoordinate =
  row :: int
  col :: int

type_synonym LinearPosition = int

record GridPosition =
  b_size :: int

text \<open>The constructor \<^verbatim>\<open>GridPosition(int rows, int cols) : b_size(cols)\<close> ignores \<open>rows\<close>.\<close>

definition GridPosition_new :: "int \<Rightarrow> int \<Rightarrow> GridPosition" where
  "GridPosition_new rows cols = \<lparr>b_size = cols\<rparr>"

text \<open>\<^verbatim>\<open>LinearPosition operator()(int row, int col) { return row * b_size + col; }\<close>\<close>

definition to_linear :: "GridPosition \<Rightarrow> int \<Rightarrow> int \<Rightarrow> LinearPosition" where
  "to_linear g r c = wrap_int (r * b_size g + c)"

text \<open>
  \<^verbatim>\<open>GridCoordinate operator()(LinearPosition pos) { return { pos / b_size, pos % b_size }; }\<close>
  A zero divisor, and the one quotient that leaves the range, do not return.
\<close>

definition to_coordinate :: "GridPosition \<Rightarrow> LinearPosition \<Rightarrow> GridCoordinate option" where
  "to_coordinate g pos =
     (if b_size g = 0 \<or> (pos = INT_MIN \<and> b_size g = - 1) then None
      else Some \<lparr>row = pos sdiv b_size g, col = pos smod b_size g\<rparr>)"

section \<open>PixelDigiMatrix: the bounds predicate (unnamed/part_001, lines 216-217)\<close>

record Geometry =
  l_rows :: int
  l_columns :: int

text \<open>\<^verbatim>\<open>inline int index(int x, int y) { return x * l_columns + y; }\<close>\<close>

definition index :: "Geometry \<Rightarrow> int \<Rightarrow> int \<Rightarrow> int" where
  "index m x y = wrap_int (x * l_columns m + y)"

text \<open>
  \<^verbatim>\<open>inline bool check(int x, int y)
  { return (0 <= x and x < l_rows) and (0 <= y || y < l_columns); }\<close>
\<close>

definition check :: "Geometry \<Rightarrow> int \<Rightarrow> int \<Rightarrow> bool" where
  "check m x y \<longleftrightarrow> (0 \<le> x \<and> x < l_rows m) \<and> (0 \<le> y \<or> y < l_columns m)"

section \<open>PixelDigiMatrix: coordinate transforms (unnamed/part_001, lines 172-176)\<close>

text \<open>
  The values of the C++ types \<^verbatim>\<open>float\<close> and \<^verbatim>\<open>double\<close> are real numbers, and an
  arithmetic operation on doubles returns the rounding \<open>rd\<close> of its exact result: \<open>rd\<close>
  is the rounding function of the platform, a parameter of every function that computes
  with doubles. Round-to-nearest of IEEE 754 binary64 has a relative error of at most
  \<open>2\<^sup>-\<^sup>5\<^sup>3\<close> (\<open>rounds\<close>); infinities, NaN and the exponent range are not modelled. Halving
  a float (\<^verbatim>\<open>_ladderLength / 2\<close>) is exact, and so is the conversion of an \<^verbatim>\<open>int\<close> or a
  \<^verbatim>\<open>float\<close> to \<^verbatim>\<open>double\<close>.
\<close>

definition rounds :: "(real \<Rightarrow> real) \<Rightarrow> bool" where
  "rounds rd \<longleftrightarrow> (\<forall>x. \<bar>rd x - x\<bar> \<le> \<bar>x\<bar> / 2 ^ 53)"

text \<open>
  The conversion \<^verbatim>\<open>int(v)\<close> of a \<^verbatim>\<open>double\<close> truncates towards zero. A value whose
  truncation is outside the range of \<^verbatim>\<open>int\<close> has no defined conversion in C++; the
  conversion instruction of x86 returns \<open>INT_MIN\<close> for it, and so does the model.
\<close>

definition to_int :: "real \<Rightarrow> int" where
  "to_int v =
     (let t = (if 0 \<le> v then \<lfloor>v\<rfloor> else - \<lfloor>- v\<rfloor>)
      in if is_int t then t else INT_MIN)"

text \<open>
  \<^verbatim>\<open>int(a / b)\<close> for doubles: a division by zero gives an infinity or NaN, which is out of
  the range of \<^verbatim>\<open>int\<close>.
\<close>

definition fdiv_to_int :: "(real \<Rightarrow> real) \<Rightarrow> real \<Rightarrow> real \<Rightarrow> int" where
  "fdiv_to_int rd a b = (if b = 0 then INT_MIN else to_int (rd (a / b)))"

record Ladder =
  pixelSizeX :: real
  pixelSizeY :: real
  ladderLength :: real
  ladderWidth :: real

text \<open>\<^verbatim>\<open>inline int XToPixelRow(double x) { return int((x + _ladderWidth / 2) / _pixelSizeX); }\<close>\<close>

definition XToPixelRow :: "(real \<Rightarrow> real) \<Rightarrow> Ladder \<Rightarrow> real \<Rightarrow> int" where
  "XToPixelRow rd m x = fdiv_to_int rd (rd (x + ladderWidth m / 2)) (pixelSizeX m)"

text \<open>\<^verbatim>\<open>inline int YToPixelCol(double y) { return int((y + _ladderLength / 2) / _pixelSizeY); }\<close>\<close>

definition YToPixelCol :: "(real \<Rightarrow> real) \<Rightarrow> Ladder \<Rightarrow> real \<Rightarrow> int" where
  "YToPixelCol rd m y = fdiv_to_int rd (rd (y + ladderLength m / 2)) (pixelSizeY m)"


text \<open>\<^verbatim>\<open>inline double PixelColToY(int iy) { return ((0.5 + double(iy)) * _pixelSizeY) - _ladderLength / 2; }\<close>\<close>

definition PixelColToY :: "(real \<Rightarrow> real) \<Rightarrow> Ladder \<Rightarrow> int \<Rightarrow> real" where
  "PixelColToY rd m iy = rd (rd (rd (0.5 + real_of_int iy) * pixelSizeY m) - ladderLength m / 2)"

section \<open>MuonCVXDDigitiser (src/MuonCVXDDigitiser.cc)\<close>

text \<open>
  The members of the processor that the functions below read. The vectors indexed by
  \<^verbatim>\<open>_currentLayer\<close> are represented by their entry for the current layer;
  \<open>keV\<close> is the unit constant \<^verbatim>\<open>dd4hep::keV\<close>.
\<close>

record Digitiser =
  threshold :: real
  electronsPerKeV :: real
  tanLorentzAngleX :: real
  tanLorentzAngleY :: real
  layerHalfThickness :: real
  layerLadderLength :: real
  layerLadderHalfWidth :: real
  digiPixelSizeX :: real
  digiPixelSizeY :: real
  keV :: real

text \<open>
  TransformXYToCellID (lines 892-903): returns \<open>(ix, iy)\<close>. The doubles are rounded by
  \<open>rd\<close>, as in the transforms of PixelDigiMatrix.
\<close>

definition TransformXYToCellID :: "(real \<Rightarrow> real) \<Rightarrow> Digitiser \<Rightarrow> real \<Rightarrow> real \<Rightarrow> int \<times> int" where
  "TransformXYToCellID rd d x y =
     (let yInLadder = rd (y + layerLadderLength d / 2);
          iy = fdiv_to_int rd yInLadder (digiPixelSizeY d);
          xInLadder = rd (x + layerLadderHalfWidth d);
          ix = fdiv_to_int rd xInLadder (digiPixelSizeX d)
      in (ix, iy))"

text \<open>TransformCellIDToXY (lines 908-914): returns \<open>(x, y)\<close>.\<close>

definition TransformCellIDToXY :: "(real \<Rightarrow> real) \<Rightarrow> Digitiser \<Rightarrow> int \<Rightarrow> int \<Rightarrow> real \<times> real" where
  "TransformCellIDToXY rd d ix iy =
     (let y = rd (rd (rd (0.5 + real_of_int iy) * digiPixelSizeY d) - layerLadderLength d / 2);
          x = rd (rd (rd (0.5 + real_of_int ix) * digiPixelSizeX d) - layerLadderHalfWidth d)
      in (x, y))"

text \<open>The fields of a pixel hit and of a reconstructed hit that ReconstructTrackerHit uses.\<close>

record SimTrackerHit =
  EDep :: real
  posX :: real
  posY :: real
  posZ :: real

record TrackerHitPlane =
  hitEDep :: real
  hitX :: real
  hitY :: real
  hitZ :: real
  dU :: real
  dV :: real

text \<open>
  ReconstructTrackerHit (lines 828-871). The local variables of the loop are
  \<^verbatim>\<open>pos[0]\<close>, \<^verbatim>\<open>pos[1]\<close>, \<^verbatim>\<open>charge\<close> (here \<open>acc_charge\<close>) and \<^verbatim>\<open>size\<close>
  (here \<open>acc_size\<close>); \<^verbatim>\<open>pos[2]\<close> stays 0.
  \<open>None\<close> is the \<^verbatim>\<open>nullptr\<close> result.
\<close>

record Accumulator =
  pos0 :: real
  pos1 :: real
  acc_charge :: real
  acc_size :: int

fun average_loop :: "Digitiser \<Rightarrow> SimTrackerHit list \<Rightarrow> Accumulator \<Rightarrow> Accumulator" where
  "average_loop d [] a = a"
| "average_loop d (hit # simTrkVec) a =
     (if EDep hit \<le> threshold d then average_loop d simTrkVec a
      else average_loop d simTrkVec
             \<lparr>pos0 = pos0 a + posX hit, pos1 = pos1 a + posY hit,
              acc_charge = acc_charge a + EDep hit, acc_size = acc_size a + 1\<rparr>)"

definition ReconstructTrackerHit :: "Digitiser \<Rightarrow> SimTrackerHit list \<Rightarrow> TrackerHitPlane option" where
  "ReconstructTrackerHit d simTrkVec =
     (let a = average_loop d simTrkVec \<lparr>pos0 = 0, pos1 = 0, acc_charge = 0, acc_size = 0\<rparr>
      in if acc_charge a > 0 then
           Some \<lparr>hitEDep = (acc_charge a / electronsPerKeV d) * keV d,
                 hitX = pos0 a / real_of_int (acc_size a) - layerHalfThickness d * tanLorentzAngleX d,
                 hitY = pos1 a / real_of_int (acc_size a) - layerHalfThickness d * tanLorentzAngleY d,
                 hitZ = 0,
                 dU = digiPixelSizeX d / sqrt 12,
                 dV = digiPixelSizeY d / sqrt 12\<rparr>
         else None)"

text \<open>The input pixels whose charge is strictly above the threshold, in input order.\<close>

definition over_threshold :: "Digitiser \<Rightarrow> SimTrackerHit list \<Rightarrow> SimTrackerHit list" where
  "over_threshold d simTrkVec = filter (\<lambda>hit. threshold d < EDep hit) simTrkVec"

section \<open>PixelDigiMatrix: state and clock (declared in unnamed/part_001)\<close>

text \<open>\<^verbatim>\<open>enum class MatrixStatus : char { ok, pixel_number_error, segment_number_error };\<close>\<close>

datatype MatrixStatus = ok | pixel_number_error | segment_number_error

text \<open>
  Modelled from the spec: the values of a pixel's status, which the body of calc_status
  (missing from the source) computes. The spec names them idle, charging, ready,
  discharging, out_of_bounds and geometry_error; the enum of the header names the first
  four on, off, ready and start, and nothing in the source relates the two.
\<close>

datatype PixelStatus = idle | charging | ready | discharging | out_of_bounds | geometry_error

text \<open>\<^verbatim>\<open>struct PixelRawData { float charge; int counter; bool active; };\<close>\<close>

record PixelRawData =
  charge :: real
  counter :: int
  active :: bool

text \<open>
  The data members of class PixelDigiMatrix. The vector \<^verbatim>\<open>pixels\<close> holds the pixel with
  \<open>index x y\<close> at that position.
\<close>

record PixelDigiMatrix = Geometry +
  barrel_id :: int
  layer :: int
  ladder :: int
  thickness :: real
  extent :: Ladder
  s_rows :: int
  s_colums :: int
  x_segnum :: int
  y_segnum :: int
  cellFmtStr :: string
  thr_level :: real
  clock_time :: real
  clock_step :: real
  delta_c :: real
  pixels :: "PixelRawData list"
  status :: MatrixStatus





text \<open>
  Modelled from the spec: the body of PixelDigiMatrix::IsActive, missing from the source.
  The spec: IsActive is true iff any pixel holds nonzero charge.
\<close>

definition IsActive :: "PixelDigiMatrix \<Rightarrow> bool" where
  "IsActive m \<longleftrightarrow> (\<exists>pix \<in> set (pixels m). charge pix \<noteq> 0)"


section \<open>GridPartitionedSet (declared in unnamed/part_000, lines 23-52)\<close>

text \<open>\<^verbatim>\<open>struct ClusterData { int label; int pos; };\<close>\<close>

record ClusterData =
  cd_label :: int
  cd_pos :: int

text \<open>
  Modelled from the spec: the state of a GridPartitionedSet, of which the source has the
  declaration only. The vector \<^verbatim>\<open>data\<close> is the function from the linear position of a cell
  to its entry (the label of its parent, its own position for a root, \<open>- 1\<close> for an
  invalidated cell); \<^verbatim>\<open>c_buffer\<close> holds the labelled cells that next has not handed out
  yet. The members \<^verbatim>\<open>valid_cells\<close>, \<^verbatim>\<open>c_curr\<close> and \<^verbatim>\<open>c_next\<close>, for which the spec has no
  rule, are left out.
\<close>

record GridPartitionedSet =
  rows :: int
  columns :: int
  locate :: GridPosition
  data :: "int \<Rightarrow> int"
  c_buffer :: "ClusterData list"

text \<open>
  Modelled from the spec: the constructor GridPartitionedSet(n_row, n_col) and init, which
  begins a new labeling pass: every cell carries its own position as a fresh label.
\<close>

definition GridPartitionedSet_new :: "int \<Rightarrow> int \<Rightarrow> GridPartitionedSet" where
  "GridPartitionedSet_new n_row n_col =
     \<lparr>rows = n_row, columns = n_col, locate = GridPosition_new n_row n_col,
      data = (\<lambda>p. p), c_buffer = []\<rparr>"

definition init :: "GridPartitionedSet \<Rightarrow> GridPartitionedSet" where
  "init g = g\<lparr>data := (\<lambda>p. p), c_buffer := []\<rparr>"

text \<open>
  Modelled from the spec: find, missing from the source. The spec: the canonical label
  after compression, or a sentinel if the pixel is inactive. \<open>find_root\<close> follows the
  parent entries down to a root or to the sentinel; \<open>compress\<close> then writes the root
  into every entry on that path.
\<close>

function find_root :: "(int \<Rightarrow> int) \<Rightarrow> int \<Rightarrow> int" where
  "find_root d p = (if 0 \<le> d p \<and> d p < p then find_root d (d p) else d p)"
  by pat_completeness auto
termination
  by (relation "measure (\<lambda>(d, p). nat p)") auto

declare find_root.simps [simp del]

function compress :: "(int \<Rightarrow> int) \<Rightarrow> int \<Rightarrow> int \<Rightarrow> (int \<Rightarrow> int)" where
  "compress d p r = (if 0 \<le> d p \<and> d p < p then compress (d(p := r)) (d p) r else d)"
  by pat_completeness auto
termination
  by (relation "measure (\<lambda>(d, p, r). nat p)") auto

declare compress.simps [simp del]

definition find_grid :: "GridPartitionedSet \<Rightarrow> int \<Rightarrow> int \<Rightarrow> int \<times> GridPartitionedSet" where
  "find_grid g x y =
     (let p = to_linear (locate g) x y;
          r = find_root (data g) p
      in (r, if 0 \<le> r then g\<lparr>data := compress (data g) p r\<rparr> else g))"

text \<open>
  Modelled from the spec: merge, missing from the source. The spec: union by label with
  path compression; the canonical label is the smaller numeric id.
\<close>

definition merge :: "GridPartitionedSet \<Rightarrow> int \<Rightarrow> int \<Rightarrow> int \<Rightarrow> int \<Rightarrow> GridPartitionedSet" where
  "merge g x1 y1 x2 y2 =
     (let (r1, g1) = find_grid g x1 y1;
          (r2, g2) = find_grid g1 x2 y2
      in if r1 < 0 \<or> r2 < 0 then g2
         else if r1 < r2 then g2\<lparr>data := (data g2)(r2 := r1)\<rparr>
         else if r2 < r1 then g2\<lparr>data := (data g2)(r1 := r2)\<rparr>
         else g2)"

text \<open>
  Modelled from the spec: invalidate, missing from the source. The spec: lazily removes a
  pixel mid-pass without relabeling peers.
\<close>

definition invalidate :: "GridPartitionedSet \<Rightarrow> int \<Rightarrow> int \<Rightarrow> GridPartitionedSet" where
  "invalidate g x y = g\<lparr>data := (data g)(to_linear (locate g) x y := - 1)\<rparr>"

text \<open>
  Modelled from the spec: close, missing from the source. The spec: finalizes label
  bookkeeping, grouping contiguous label runs into clusters. The cells with a label are
  collected with their canonical label and ordered by label (the comparison of the source's
  CmpClusterData).
\<close>

definition labelled_cells :: "GridPartitionedSet \<Rightarrow> ClusterData list" where
  "labelled_cells g =
     filter (\<lambda>cd. 0 \<le> cd_label cd)
       (map (\<lambda>p. \<lparr>cd_label = find_root (data g) (int p), cd_pos = int p\<rparr>)
            [0..<nat (rows g * columns g)])"

definition close :: "GridPartitionedSet \<Rightarrow> GridPartitionedSet" where
  "close g = g\<lparr>c_buffer := sort_key cd_label (labelled_cells g)\<rparr>"

text \<open>
  Modelled from the spec: next, missing from the source. The spec: pops one finished
  ClusterOfPixel (ascending label order), empty when exhausted. \<open>all_clusters\<close> is the
  caller's loop that calls next until the cluster is empty.
\<close>

definition next_cluster :: "GridPartitionedSet \<Rightarrow> int list \<times> GridPartitionedSet" where
  "next_cluster g =
     (case c_buffer g of
        [] \<Rightarrow> ([], g)
      | cd # _ \<Rightarrow>
          (map cd_pos (takeWhile (\<lambda>c. cd_label c = cd_label cd) (c_buffer g)),
           g\<lparr>c_buffer := dropWhile (\<lambda>c. cd_label c = cd_label cd) (c_buffer g)\<rparr>))"

function all_clusters :: "GridPartitionedSet \<Rightarrow> int list list" where
  "all_clusters g =
     (let (cluster, g') = next_cluster g
      in if cluster = [] then [] else cluster # all_clusters g')"
  by pat_completeness auto
termination
proof (relation "measure (\<lambda>g. length (c_buffer g))")
  show "wf (measure (\<lambda>g. length (c_buffer g)))" by simp
next
  fix g :: GridPartitionedSet and x cluster g'
  assume x: "x = next_cluster g" and p: "(cluster, g') = x" and ne: "cluster \<noteq> []"
  from x p have nc: "next_cluster g = (cluster, g')" by simp
  show "(g', g) \<in> measure (\<lambda>g. length (c_buffer g))"
  proof (cases "c_buffer g")
    case Nil
    with nc ne show ?thesis by (simp add: next_cluster_def)
  next
    case (Cons cd cds)
    with nc have "c_buffer g' = dropWhile (\<lambda>c. cd_label c = cd_label cd) cds"
      by (auto simp: next_cluster_def)
    then have "length (c_buffer g') \<le> length cds"
      by (simp add: length_dropWhile_le)
    with Cons show ?thesis by simp
  qed
qed

declare all_clusters.simps [simp del]

text \<open>
  Modelled from the spec: the labeling pass, whose loop is in the missing
  HKBaseSensor::buildHits. The spec: single-pass, row-major connected-component labeling
  of active pixels, 4-connectivity only (a pixel's label is inherited from an active
  left/up neighbor; two differing labels are unioned; no active neighbor yields a fresh
  label). \<open>A r c\<close> tells whether the pixel in row \<open>r\<close> and column \<open>c\<close> is active.
\<close>

definition scan_cell :: "(int \<Rightarrow> int \<Rightarrow> bool) \<Rightarrow> GridPartitionedSet \<Rightarrow> int \<Rightarrow> int \<Rightarrow> GridPartitionedSet" where
  "scan_cell A g r c =
     (if A r c then
        (let g1 = (if 0 < c \<and> A r (c - 1) then merge g r c r (c - 1) else g);
             g2 = (if 0 < r \<and> A (r - 1) c then merge g1 r c (r - 1) c else g1)
         in g2)
      else invalidate g r c)"

definition scan_row :: "(int \<Rightarrow> int \<Rightarrow> bool) \<Rightarrow> GridPartitionedSet \<Rightarrow> int \<Rightarrow> GridPartitionedSet" where
  "scan_row A g r = foldl (\<lambda>g' c. scan_cell A g' r (int c)) g [0..<nat (columns g)]"

definition scan_grid :: "(int \<Rightarrow> int \<Rightarrow> bool) \<Rightarrow> GridPartitionedSet \<Rightarrow> GridPartitionedSet" where
  "scan_grid A g = foldl (\<lambda>g' r. scan_row A g' (int r)) g [0..<nat (rows g)]"

definition labeling_pass :: "(int \<Rightarrow> int \<Rightarrow> bool) \<Rightarrow> GridPartitionedSet \<Rightarrow> int list list" where
  "labeling_pass A g = all_clusters (close (scan_grid A (init g)))"

text \<open>
  Modelled from the spec: the labeling pass with the cells of the grid taken in another
  order, the loop of which is in the missing HKBaseSensor::buildHits. The spec (8) asks for
  the same clusters regardless of the scan order: \<open>cells\<close> lists the rows and columns
  in the order in which the pass visits them, and \<open>scan_order\<close> tells that every cell of
  the grid is visited once.
\<close>

definition scan_cells :: "(int \<Rightarrow> int \<Rightarrow> bool) \<Rightarrow> GridPartitionedSet \<Rightarrow> (int \<times> int) list \<Rightarrow> GridPartitionedSet" where
  "scan_cells A g cells = foldl (\<lambda>g' rc. scan_cell A g' (fst rc) (snd rc)) g cells"

definition pass_in_order :: "(int \<Rightarrow> int \<Rightarrow> bool) \<Rightarrow> GridPartitionedSet \<Rightarrow> (int \<times> int) list \<Rightarrow> int list list" where
  "pass_in_order A g cells = all_clusters (close (scan_cells A (init g) cells))"

definition scan_order :: "int \<Rightarrow> int \<Rightarrow> (int \<times> int) list \<Rightarrow> bool" where
  "scan_order R C cells \<longleftrightarrow>
     distinct cells \<and> length cells = nat (R * C) \<and>
     (\<forall>rc \<in> set cells. 0 \<le> fst rc \<and> fst rc < R \<and> 0 \<le> snd rc \<and> snd rc < C)"

subsection \<open>Connected components of the active pixels\<close>

text \<open>
  The pixels are named by their linear positions \<open>p = row * C + col\<close> on a grid of \<open>R\<close>
  rows and \<open>C\<close> columns. Two pixels are 4-neighbours when they lie in the same row in
  adjacent columns or in the same column in adjacent rows; two active pixels are connected
  when a chain of active 4-neighbours leads from one to the other.
\<close>

definition adjacent4 :: "int \<Rightarrow> int \<Rightarrow> int \<Rightarrow> bool" where
  "adjacent4 C p q \<longleftrightarrow>
     (p div C = q div C \<and> \<bar>p mod C - q mod C\<bar> = 1) \<or>
     (p mod C = q mod C \<and> \<bar>p div C - q div C\<bar> = 1)"

definition active_cells :: "(int \<Rightarrow> int \<Rightarrow> bool) \<Rightarrow> int \<Rightarrow> int \<Rightarrow> int set" where
  "active_cells A R C = {p. 0 \<le> p \<and> p < R * C \<and> A (p div C) (p mod C)}"

definition connected4 :: "(int \<Rightarrow> int \<Rightarrow> bool) \<Rightarrow> int \<Rightarrow> int \<Rightarrow> (int \<times> int) set" where
  "connected4 A R C =
     {(p, q). p \<in> active_cells A R C \<and> q \<in> active_cells A R C \<and> adjacent4 C p q}\<^sup>*"

subsection \<open>Notions of the correctness proof of the pass\<close>

text \<open>Every entry points to a position that is not above its own.\<close>

definition decr :: "(int \<Rightarrow> int) \<Rightarrow> bool" where
  "decr d \<longleftrightarrow> (\<forall>p. d p \<le> p)"

text \<open>The effect of a union on a label: the larger of the two labels becomes the smaller.\<close>

definition relabel :: "int \<Rightarrow> int \<Rightarrow> int \<Rightarrow> int" where
  "relabel a b l = (if l = max a b then min a b else l)"

text \<open>The active pixels among the first \<open>k\<close> cells of the scan, and their adjacencies.\<close>

definition seen :: "(int \<Rightarrow> int \<Rightarrow> bool) \<Rightarrow> int \<Rightarrow> int \<Rightarrow> int set" where
  "seen A C k = {p. 0 \<le> p \<and> p < k \<and> A (p div C) (p mod C)}"

definition edges :: "(int \<Rightarrow> int \<Rightarrow> bool) \<Rightarrow> int \<Rightarrow> int \<Rightarrow> (int \<times> int) set" where
  "edges A C k = {(p, q). p \<in> seen A C k \<and> q \<in> seen A C k \<and> adjacent4 C p q}"

text \<open>On \<open>S\<close>, equal labels are exactly the pairs connected by \<open>E\<close>.\<close>

definition agrees :: "int set \<Rightarrow> (int \<times> int) set \<Rightarrow> (int \<Rightarrow> int) \<Rightarrow> bool" where
  "agrees S E L \<longleftrightarrow> (\<forall>p \<in> S. \<forall>q \<in> S. L p = L q \<longleftrightarrow> (p, q) \<in> E\<^sup>*)"

text \<open>The invariant of the scan after \<open>k\<close> cells, for a set \<open>S\<close> of pixels joined along \<open>E\<close>.\<close>

definition labelled :: "int \<Rightarrow> int \<Rightarrow> int \<Rightarrow> int set \<Rightarrow> (int \<times> int) set \<Rightarrow> GridPartitionedSet \<Rightarrow> bool" where
  "labelled R C k S E g \<longleftrightarrow>
     rows g = R \<and> columns g = C \<and> locate g = GridPosition_new R C \<and> decr (data g) \<and>
     S \<subseteq> {0..<k} \<and> E \<subseteq> S \<times> S \<and>
     (\<forall>p. k \<le> p \<longrightarrow> find_root (data g) p = p) \<and>
     (\<forall>p. 0 \<le> p \<and> p < k \<and> p \<notin> S \<longrightarrow> find_root (data g) p < 0) \<and>
     (\<forall>p \<in> S. 0 \<le> find_root (data g) p) \<and>
     agrees S E (find_root (data g))"

definition pass_inv :: "(int \<Rightarrow> int \<Rightarrow> bool) \<Rightarrow> int \<Rightarrow> int \<Rightarrow> int \<Rightarrow> GridPartitionedSet \<Rightarrow> bool" where
  "pass_inv A R C k g \<longleftrightarrow> labelled R C k (seen A C k) (edges A C k) g"

text \<open>
  The invariant of a pass that has visited the cells \<open>V\<close> in any order: the pixels that
  still carry a label are those not visited yet and the active ones, and the pairs joined
  are the active 4-neighbours of which the later one in row-major order has been visited.
\<close>

definition pending :: "(int \<Rightarrow> int \<Rightarrow> bool) \<Rightarrow> int \<Rightarrow> int \<Rightarrow> int set \<Rightarrow> int set" where
  "pending A R C V = {p. 0 \<le> p \<and> p < R * C \<and> (p \<in> V \<longrightarrow> A (p div C) (p mod C))}"

definition joined :: "(int \<Rightarrow> int \<Rightarrow> bool) \<Rightarrow> int \<Rightarrow> int \<Rightarrow> int set \<Rightarrow> (int \<times> int) set" where
  "joined A R C V =
     {(p, q). p \<in> active_cells A R C \<and> q \<in> active_cells A R C \<and> adjacent4 C p q \<and> max p q \<in> V}"

section \<open>ClusterHeap (declared in unnamed/part_000, lines 59-99)\<close>


text \<open>\<^verbatim>\<open>struct ChargePoint { int row; int col; float charge; };\<close>\<close>

record ChargePoint =
  cp_row :: int
  cp_col :: int
  cp_charge :: real

text \<open>\<^verbatim>\<open>struct BufferedCluster { vector<ChargePoint> pixels; float time; };\<close>\<close>

record BufferedCluster =
  bc_pixels :: "ChargePoint list"
  bc_time :: real

text \<open>\<^verbatim>\<open>struct ClusterItem { BufferedCluster buffer; int size; };\<close>\<close>

record ClusterItem =
  buffer :: BufferedCluster
  item_size :: int


text \<open>The largest \<^verbatim>\<open>float\<close>: the time of a cluster no pixel of which has been set up yet.\<close>

definition FLT_MAX :: real where
  "FLT_MAX = 340282346638528859811704183484516925440"











subsection \<open>Notions used to state the results on ClusterHeap\<close>

text \<open>The linear position of a member pixel of a cluster, as \<^verbatim>\<open>locate\<close> computes it.\<close>

definition point_pos :: "GridPosition \<Rightarrow> ChargePoint \<Rightarrow> LinearPosition" where
  "point_pos g cp = to_linear g (cp_row cp) (cp_col cp)"




definition earliest :: "ClusterItem list \<Rightarrow> real" where
  "earliest old = foldr (\<lambda>it t. min (bc_time (buffer it)) t) old FLT_MAX"

section \<open>HKBaseSensor (declared in unnamed/part_000, lines 107-134)\<close>




text \<open>
  \<^verbatim>\<open>inline int SensorRowToLadderRow(int seg_x, int pos_x) { return seg_x * s_rows + pos_x; }\<close>
  \<^verbatim>\<open>inline int SensorColToLadderCol(int seg_y, int pos_y) { return seg_y * s_colums + pos_y; }\<close>
\<close>

definition SensorRowToLadderRow :: "PixelDigiMatrix \<Rightarrow> int \<Rightarrow> int \<Rightarrow> int" where
  "SensorRowToLadderRow m seg_x pos_x = wrap_int (seg_x * s_rows m + pos_x)"

definition SensorColToLadderCol :: "PixelDigiMatrix \<Rightarrow> int \<Rightarrow> int \<Rightarrow> int" where
  "SensorColToLadderCol m seg_y pos_y = wrap_int (seg_y * s_colums m + pos_y)"

text \<open>
  Modelled from the spec: the pixel that GetPixel(seg_x, seg_y, pos_x, pos_y) reads, the body
  of which is missing from the source. A position that \<^verbatim>\<open>check\<close> refuses, or whose index
  is outside the vector, has no pixel (the spec: status out_of_bounds, excluded from
  clustering).
\<close>

definition sensor_pixel :: "PixelDigiMatrix \<Rightarrow> int \<Rightarrow> int \<Rightarrow> int \<Rightarrow> int \<Rightarrow> PixelRawData option" where
  "sensor_pixel m seg_x seg_y pos_x pos_y =
     (let x = SensorRowToLadderRow m seg_x pos_x;
          y = SensorColToLadderCol m seg_y pos_y;
          geo = \<lparr>l_rows = l_rows m, l_columns = l_columns m\<rparr>
      in if check geo x y \<and> 0 \<le> index geo x y \<and> index geo x y < int (length (pixels m))
         then Some (pixels m ! nat (index geo x y)) else None)"

text \<open>
  Modelled from the spec: the pixels of a segment that are active (hold nonzero charge), on
  which the labeling pass runs and which keep a cluster open, and the pixels that are ready.
\<close>

definition tile_active :: "PixelDigiMatrix \<Rightarrow> int \<Rightarrow> int \<Rightarrow> int \<Rightarrow> int \<Rightarrow> bool" where
  "tile_active m seg_x seg_y pos_x pos_y =
     (case sensor_pixel m seg_x seg_y pos_x pos_y of
        None \<Rightarrow> False
      | Some pix \<Rightarrow> charge pix \<noteq> 0)"

















section \<open>Results on GridPosition\<close>

lemma wrap_int_id: "is_int v \<Longrightarrow> wrap_int v = v"
  by (simp add: is_int_def INT_MIN_def INT_MAX_def wrap_int_def)

lemma sdiv_nonneg: "0 \<le> a \<Longrightarrow> 0 < b \<Longrightarrow> (a::int) sdiv b = a div b"
  by (simp add: signed_divide_int_def sgn_if)

lemma smod_nonneg: "0 \<le> a \<Longrightarrow> 0 < b \<Longrightarrow> (a::int) smod b = a mod b"
  by (simp add: signed_modulo_int_def sgn_if)

lemma coordinate_of_linear:
  assumes "0 \<le> r" "0 \<le> c" "c < ncols" "r * ncols + c \<le> INT_MAX"
  shows "to_coordinate (GridPosition_new nrows ncols) (to_linear (GridPosition_new nrows ncols) r c)
           = Some \<lparr>row = r, col = c\<rparr>"
proof -
  have pos: "0 < ncols" using assms by linarith
  have nn: "0 \<le> r * ncols + c" using assms pos by simp
  have "is_int (r * ncols + c)"
    using assms(4) nn by (simp add: is_int_def INT_MIN_def)
  then have lin: "to_linear (GridPosition_new nrows ncols) r c = r * ncols + c"
    by (simp add: to_linear_def GridPosition_new_def wrap_int_id)
  have d: "(r * ncols + c) sdiv ncols = r"
    using assms pos by (simp add: sdiv_nonneg [OF nn pos])
  have m: "(r * ncols + c) smod ncols = c"
    using assms pos by (simp add: smod_nonneg [OF nn pos])
  have "to_coordinate (GridPosition_new nrows ncols) (r * ncols + c)
          = Some \<lparr>row = (r * ncols + c) sdiv ncols, col = (r * ncols + c) smod ncols\<rparr>"
    using pos nn by (simp add: to_coordinate_def GridPosition_new_def INT_MIN_def)
  then show ?thesis
    by (simp only: lin d m)
qed

lemma linear_of_coordinate:
  assumes "0 \<le> pos" "pos \<le> INT_MAX" "ncols \<noteq> 0"
  shows "\<exists>gc. to_coordinate (GridPosition_new nrows ncols) pos = Some gc
            \<and> to_linear (GridPosition_new nrows ncols) (row gc) (col gc) = pos"
proof -
  have "is_int pos" using assms by (simp add: is_int_def INT_MIN_def)
  moreover have "pos sdiv ncols * ncols + pos smod ncols = pos"
    by (rule sdiv_mult_smod_eq)
  moreover have "pos \<noteq> INT_MIN" using assms by (simp add: INT_MIN_def)
  ultimately show ?thesis
    using assms by (simp add: to_coordinate_def to_linear_def GridPosition_new_def wrap_int_id)
qed

text \<open>
  C8, as stated, fails: for a row whose linear index leaves the range of \<^verbatim>\<open>int\<close> the
  product wraps around. Row \<open>2^30\<close> of a grid with 4 columns is mapped to linear position 0,
  which is mapped back to row 0.
\<close>

theorem GridPosition_roundtrip_overflow:
  "to_coordinate (GridPosition_new 1073741825 4) (to_linear (GridPosition_new 1073741825 4) 1073741824 0)
     = Some \<lparr>row = 0, col = 0\<rparr>
   \<and> \<lparr>row = 0, col = 0\<rparr> \<noteq> \<lparr>row = 1073741824, col = (0::int)\<rparr>"
  by (simp add: to_coordinate_def to_linear_def GridPosition_new_def wrap_int_def INT_MIN_def)

text \<open>
  C8, amended: when the linear index of \<open>(row, col)\<close> fits into an \<^verbatim>\<open>int\<close>, with
  \<open>0 \<le> row\<close> and \<open>0 \<le> col < ncols\<close>, mapping to the linear position and back returns
  \<open>(row, col)\<close>; and for a grid with a nonzero number of columns every linear position
  \<open>0 \<le> pos \<le> INT_MAX\<close> is mapped to a coordinate whose linear position is \<open>pos\<close> again.
\<close>

theorem GridPosition_bijection_in_range:
  "(0 \<le> r \<and> 0 \<le> c \<and> c < ncols \<and> r * ncols + c \<le> INT_MAX \<longrightarrow>
      to_coordinate (GridPosition_new nrows ncols) (to_linear (GridPosition_new nrows ncols) r c)
        = Some \<lparr>row = r, col = c\<rparr>)
   \<and> (0 \<le> pos \<and> pos \<le> INT_MAX \<and> ncols \<noteq> 0 \<longrightarrow>
        (\<exists>gc. to_coordinate (GridPosition_new nrows ncols) pos = Some gc
            \<and> to_linear (GridPosition_new nrows ncols) (row gc) (col gc) = pos))"
  using coordinate_of_linear [of r c ncols nrows] linear_of_coordinate [of pos ncols nrows]
  by blast

theorem GridPosition_bijection_in_range_witness:
  "to_coordinate (GridPosition_new 3 4) (to_linear (GridPosition_new 3 4) 2 3)
        = Some \<lparr>row = 2, col = 3\<rparr>
   \<and> (\<exists>gc. to_coordinate (GridPosition_new 3 4) 11 = Some gc
            \<and> to_linear (GridPosition_new 3 4) (row gc) (col gc) = 11)"
  using GridPosition_bijection_in_range [where r = 2 and c = 3 and ncols = 4 and pos = 11 and nrows = 3]
  by (simp add: INT_MAX_def)

section \<open>Results on the bounds predicate\<close>

lemma check_ignores_columns:
  "0 < l_columns m \<Longrightarrow> check m x y \<longleftrightarrow> 0 \<le> x \<and> x < l_rows m"
  by (auto simp: check_def)

text \<open>
  C1: the bounds predicate is meant to hold exactly for \<open>0 \<le> x < l_rows\<close> and
  \<open>0 \<le> y < l_columns\<close>. The source joins the two column tests with \<^verbatim>\<open>||\<close>, so on a
  grid of 2 rows and 3 columns the position \<open>(0, 3)\<close>, one past the last column, is
  accepted, and its index is the index of the in-bounds pixel \<open>(1, 0)\<close>.
\<close>

theorem check_accepts_column_out_of_range:
  "check \<lparr>l_rows = 2, l_columns = 3\<rparr> 0 3
   \<and> \<not> (0 \<le> (3::int) \<and> (3::int) < l_columns \<lparr>l_rows = 2, l_columns = 3\<rparr>)
   \<and> index \<lparr>l_rows = 2, l_columns = 3\<rparr> 0 3 = index \<lparr>l_rows = 2, l_columns = 3\<rparr> 1 0"
  by (simp add: check_def index_def wrap_int_def)

section \<open>Results on the coordinate transforms\<close>

subsection \<open>Rounding errors\<close>

lemma rounds_err: "rounds rd \<Longrightarrow> \<bar>rd x - x\<bar> \<le> \<bar>x\<bar> / 2 ^ 53"
  by (simp add: rounds_def)

lemma rounds_bound:
  assumes "rounds rd" and "\<bar>x\<bar> \<le> M"
  shows "\<bar>rd x - x\<bar> \<le> M * (1 / 2 ^ 53)"
proof -
  have "\<bar>rd x - x\<bar> \<le> \<bar>x\<bar> / 2 ^ 53" using assms(1) by (rule rounds_err)
  also have "\<dots> \<le> M / 2 ^ 53" using assms(2) by (simp add: divide_right_mono)
  finally show ?thesis by simp
qed

lemma scaled_error:
  assumes p: "0 < (p::real)" and "\<bar>u - v\<bar> \<le> M * p * e"
  shows "\<bar>u / p - v / p\<bar> \<le> M * e"
proof -
  have "u / p - v / p = (u - v) / p" by (simp add: diff_divide_distrib)
  then have "\<bar>u / p - v / p\<bar> = \<bar>u - v\<bar> / p" using p by (simp add: abs_divide)
  also have "\<dots> \<le> (M * p * e) / p"
    using assms(2) p by (intro divide_right_mono) simp_all
  also have "\<dots> = M * e" using p by simp
  finally show ?thesis .
qed

lemma scaled_bound:
  assumes p: "0 < (p::real)" and "\<bar>u / p\<bar> \<le> M"
  shows "\<bar>u\<bar> \<le> M * p"
  using assms by (simp add: abs_divide field_simps)

lemma to_int_floor:
  assumes "0 \<le> v" and "v < 2147483648"
  shows "to_int v = \<lfloor>v\<rfloor>"
proof -
  have "0 \<le> \<lfloor>v\<rfloor>" using assms(1) by simp
  moreover have "\<lfloor>v\<rfloor> < 2147483648" using assms(2) by (simp add: floor_less_iff)
  ultimately show ?thesis
    using assms(1) by (simp add: to_int_def is_int_def INT_MIN_def INT_MAX_def)
qed

lemma centre_roundtrip:
  assumes rd: "rounds rd" and p: "0 < p" and H: "0 \<le> H" "H / p \<le> 1073741824"
    and c: "0 \<le> c" "c < 2147483648"
  shows "to_int (rd (rd (rd (rd (rd (0.5 + real_of_int c) * p) - H) + H) / p)) = c"
proof -
  define A where "A = 0.5 + real_of_int c"
  define b where "b = rd A"
  define w where "w = rd (b * p)"
  define z where "z = rd (w - H)"
  define s where "s = rd (z + H)"
  define t where "t = rd (s / p)"
  define e :: real where "e = 1 / 2 ^ 53"
  have e: "0 < e" "e * 137438953472 < 1 / 2" by (simp_all add: e_def)
  have A: "\<bar>A\<bar> \<le> 2147483648" using c by (simp add: A_def)
  have b: "\<bar>b - A\<bar> \<le> 2147483648 * e"
    unfolding b_def e_def using A by (rule rounds_bound [OF rd])
  have b': "\<bar>b\<bar> \<le> 4294967296" using b A e by linarith
  have "\<bar>b * p\<bar> \<le> 4294967296 * p"
    using b' p by (simp add: abs_mult mult_right_mono)
  then have "\<bar>w - b * p\<bar> \<le> 4294967296 * p * e"
    unfolding w_def e_def by (rule rounds_bound [OF rd])
  from scaled_error [OF p this]
  have w1: "\<bar>w / p - b\<bar> \<le> 4294967296 * e" using p by simp
  have w3: "\<bar>w / p\<bar> \<le> 8589934592" using w1 b' e by linarith
  have Hp: "0 \<le> H / p" using H(1) p by simp
  have "(w - H) / p = w / p - H / p" by (simp add: diff_divide_distrib)
  then have "\<bar>(w - H) / p\<bar> \<le> 17179869184" using w3 H(2) Hp by linarith
  then have "\<bar>w - H\<bar> \<le> 17179869184 * p" using p by (rule scaled_bound [rotated])
  then have "\<bar>z - (w - H)\<bar> \<le> 17179869184 * p * e"
    unfolding z_def e_def by (rule rounds_bound [OF rd])
  from scaled_error [OF p this]
  have "\<bar>z / p - (w - H) / p\<bar> \<le> 17179869184 * e" .
  moreover have "(z + H) / p - w / p = z / p - (w - H) / p"
    by (simp add: add_divide_distrib diff_divide_distrib)
  ultimately have z1: "\<bar>(z + H) / p - w / p\<bar> \<le> 17179869184 * e" by simp
  have z2: "\<bar>(z + H) / p\<bar> \<le> 17179869184" using z1 w3 e by linarith
  then have "\<bar>z + H\<bar> \<le> 17179869184 * p" using p by (rule scaled_bound [rotated])
  then have "\<bar>s - (z + H)\<bar> \<le> 17179869184 * p * e"
    unfolding s_def e_def by (rule rounds_bound [OF rd])
  from scaled_error [OF p this]
  have s1: "\<bar>s / p - (z + H) / p\<bar> \<le> 17179869184 * e" .
  have s2: "\<bar>s / p\<bar> \<le> 34359738368" using s1 z2 e by linarith
  then have t0: "\<bar>t - s / p\<bar> \<le> 34359738368 * e"
    unfolding t_def e_def by (rule rounds_bound [OF rd])
  have "\<bar>t - A\<bar> \<le> 137438953472 * e"
    using t0 s1 z1 w1 b e by linarith
  then have near: "\<bar>t - A\<bar> < 1 / 2" using e by linarith
  have "A = 1 / 2 + real_of_int c" by (simp add: A_def)
  then have lo: "real_of_int c < t" and hi: "t < real_of_int c + 1"
    using near by linarith+
  have "\<lfloor>t\<rfloor> = c" using lo hi by (simp add: floor_eq_iff)
  moreover have "0 \<le> t" using lo c(1) by simp
  moreover have "t < 2147483648" using hi c(2) by simp
  ultimately have "to_int t = c" by (simp add: to_int_floor)
  then show ?thesis
    by (simp only: t_def s_def z_def w_def b_def A_def)
qed

lemma rounds_nonneg:
  assumes "rounds rd" and "0 \<le> x"
  shows "0 \<le> rd x"
proof -
  have e: "\<bar>rd x - x\<bar> \<le> x / 2 ^ 53" using rounds_err [OF assms(1), of x] assms(2) by simp
  have "x / 2 ^ 53 \<le> x" using assms(2) by (simp add: field_simps)
  then show "0 \<le> rd x" using e by linarith
qed

lemma column_in_range:
  assumes rd: "rounds rd" and p: "0 < p" and n: "(2 * H) / p \<le> 2147483647"
    and y: "- H \<le> y" "y < H"
  shows "0 \<le> to_int (rd (rd (y + H) / p)) \<and> to_int (rd (rd (y + H) / p)) < 2147483648"
proof -
  define a where "a = y + H"
  define s where "s = rd a"
  define t where "t = rd (s / p)"
  define e :: real where "e = 1 / 2 ^ 53"
  have e: "0 < e" "e * 8589934592 < 1" by (simp_all add: e_def)
  have a: "0 \<le> a" "a < 2 * H" using y by (simp_all add: a_def)
  have ap: "a / p < 2147483647"
  proof -
    have "a / p < (2 * H) / p" using a(2) p by (simp add: divide_strict_right_mono)
    then show ?thesis using n by linarith
  qed
  have ap0: "0 \<le> a / p" using a(1) p by simp
  have s0: "0 \<le> s" unfolding s_def using rd a(1) by (rule rounds_nonneg)
  have "\<bar>a / p\<bar> \<le> 2147483647" using ap ap0 by linarith
  then have "\<bar>a\<bar> \<le> 2147483647 * p" using p by (rule scaled_bound [rotated])
  then have "\<bar>s - a\<bar> \<le> 2147483647 * p * e"
    unfolding s_def e_def by (rule rounds_bound [OF rd])
  from scaled_error [OF p this]
  have s1: "\<bar>s / p - a / p\<bar> \<le> 2147483647 * e" .
  have sp0: "0 \<le> s / p" using s0 p by simp
  have "\<bar>s / p\<bar> \<le> 2147483648" using s1 ap ap0 e by linarith
  then have t1: "\<bar>t - s / p\<bar> \<le> 2147483648 * e"
    unfolding t_def e_def by (rule rounds_bound [OF rd])
  have t0: "0 \<le> t" unfolding t_def using rd sp0 by (rule rounds_nonneg)
  have tu: "t < 2147483648" using t1 s1 ap e by linarith
  have "to_int t = \<lfloor>t\<rfloor>" using t0 tu by (rule to_int_floor)
  moreover have "0 \<le> \<lfloor>t\<rfloor>" using t0 by simp
  moreover have "\<lfloor>t\<rfloor> < 2147483648" using tu by (simp add: floor_less_iff)
  ultimately have "0 \<le> to_int t \<and> to_int t < 2147483648" by simp
  then show ?thesis by (simp only: t_def s_def a_def)
qed

lemma column_roundtrip:
  assumes rd: "rounds rd" and p: "0 < p" and n: "L / p \<le> real_of_int INT_MAX"
    and y: "- (L / 2) \<le> y" "y < L / 2"
  shows "fdiv_to_int rd (rd (rd (rd (rd (0.5 + real_of_int (fdiv_to_int rd (rd (y + L / 2)) p)) * p)
            - L / 2) + L / 2)) p
         = fdiv_to_int rd (rd (y + L / 2)) p"
proof -
  let ?c = "to_int (rd (rd (y + L / 2) / p))"
  have n': "(2 * (L / 2)) / p \<le> 2147483647" using n by (simp add: INT_MAX_def)
  from column_in_range [OF rd p n' y] have c: "0 \<le> ?c" "?c < 2147483648" by simp_all
  have H0: "0 \<le> L / 2" using y by linarith
  have "L / 2 / p = (L / p) / 2" by simp
  then have Hp: "L / 2 / p \<le> 1073741824" using n by (simp add: INT_MAX_def)
  have "to_int (rd (rd (rd (rd (rd (0.5 + real_of_int ?c) * p) - L / 2) + L / 2) / p)) = ?c"
    using rd p H0 Hp c by (rule centre_roundtrip)
  then show ?thesis using p by (simp add: fdiv_to_int_def)
qed

lemma rounds_id: "rounds id"
  by (simp add: rounds_def)

subsection \<open>The round trip of a column\<close>

text \<open>
  With a pixel size of \<open>2\<^sup>-\<^sup>4\<^sup>0\<close> on a ladder of length 10 the column of \<open>y = 0\<close> is
  \<open>5 \<cdot> 2\<^sup>4\<^sup>0\<close>, which no \<^verbatim>\<open>int\<close> holds: the conversion gives \<open>INT_MIN\<close>, the centre of
  that column is below the ladder, and its column is \<open>INT_MIN + 1\<close>. With the pixel size
  \<open>- 1\<close> the column of \<open>y = 0\<close> is \<open>- 5\<close> and the column of its centre is \<open>- 4\<close>: the
  truncation is towards zero. All the values are doubles, so that no operation rounds.
\<close>

theorem YToPixelCol_roundtrip_overflow:
  "YToPixelCol id \<lparr>pixelSizeX = 1, pixelSizeY = 1 / 1099511627776, ladderLength = 10, ladderWidth = 1\<rparr> 0
     = - 2147483648
   \<and> YToPixelCol id \<lparr>pixelSizeX = 1, pixelSizeY = 1 / 1099511627776, ladderLength = 10, ladderWidth = 1\<rparr>
       (PixelColToY id \<lparr>pixelSizeX = 1, pixelSizeY = 1 / 1099511627776, ladderLength = 10, ladderWidth = 1\<rparr>
         (YToPixelCol id \<lparr>pixelSizeX = 1, pixelSizeY = 1 / 1099511627776, ladderLength = 10, ladderWidth = 1\<rparr> 0))
     = - 2147483647
   \<and> YToPixelCol id \<lparr>pixelSizeX = 1, pixelSizeY = - 1, ladderLength = 10, ladderWidth = 1\<rparr> 0 = - 5
   \<and> YToPixelCol id \<lparr>pixelSizeX = 1, pixelSizeY = - 1, ladderLength = 10, ladderWidth = 1\<rparr>
       (PixelColToY id \<lparr>pixelSizeX = 1, pixelSizeY = - 1, ladderLength = 10, ladderWidth = 1\<rparr>
         (YToPixelCol id \<lparr>pixelSizeX = 1, pixelSizeY = - 1, ladderLength = 10, ladderWidth = 1\<rparr> 0))
     = - 4"
  by (simp add: YToPixelCol_def PixelColToY_def fdiv_to_int_def to_int_def is_int_def
        INT_MIN_def INT_MAX_def)

text \<open>
  C7: on a ladder with a positive pixel size whose number of columns,
  \<open>ladderLength / pixelSizeY\<close>, is at most \<open>INT_MAX\<close>, and for every coordinate \<open>y\<close>
  with \<open>- ladderLength / 2 \<le> y < ladderLength / 2\<close>: the column of \<open>y\<close>, mapped to the
  coordinate of its centre and to a column again, is the column of \<open>y\<close>, whatever the
  rounding of the double operations does within its error bound. The same holds of the
  digitiser's TransformXYToCellID and TransformCellIDToXY.
\<close>

theorem YToPixelCol_roundtrip_in_range:
  assumes "rounds rd"
    and "- (len / 2) \<le> y" and "y < len / 2" and "0 < pitch" and "len / pitch \<le> real_of_int INT_MAX"
  shows "(ladderLength m = len \<and> pixelSizeY m = pitch \<longrightarrow>
            YToPixelCol rd m (PixelColToY rd m (YToPixelCol rd m y)) = YToPixelCol rd m y)
       \<and> (layerLadderLength d = len \<and> digiPixelSizeY d = pitch \<longrightarrow>
            snd (TransformXYToCellID rd d x'
                   (snd (TransformCellIDToXY rd d ix (snd (TransformXYToCellID rd d x y)))))
              = snd (TransformXYToCellID rd d x y))"
proof (intro conjI impI)
  assume "ladderLength m = len \<and> pixelSizeY m = pitch"
  then show "YToPixelCol rd m (PixelColToY rd m (YToPixelCol rd m y)) = YToPixelCol rd m y"
    unfolding YToPixelCol_def PixelColToY_def
    using column_roundtrip [OF assms(1) assms(4) assms(5) assms(2) assms(3)] by simp
next
  assume "layerLadderLength d = len \<and> digiPixelSizeY d = pitch"
  then show "snd (TransformXYToCellID rd d x'
                   (snd (TransformCellIDToXY rd d ix (snd (TransformXYToCellID rd d x y)))))
              = snd (TransformXYToCellID rd d x y)"
    unfolding TransformXYToCellID_def TransformCellIDToXY_def Let_def
    using column_roundtrip [OF assms(1) assms(4) assms(5) assms(2) assms(3)] by simp
qed

theorem YToPixelCol_roundtrip_in_range_witness:
  "YToPixelCol id \<lparr>pixelSizeX = 1/4, pixelSizeY = 1/4, ladderLength = 8, ladderWidth = 2\<rparr>
     (PixelColToY id \<lparr>pixelSizeX = 1/4, pixelSizeY = 1/4, ladderLength = 8, ladderWidth = 2\<rparr>
       (YToPixelCol id \<lparr>pixelSizeX = 1/4, pixelSizeY = 1/4, ladderLength = 8, ladderWidth = 2\<rparr> (- 23/8)))
   = 4"
  using YToPixelCol_roundtrip_in_range
    [OF rounds_id, of 8 "- 23/8" "1/4"
       "\<lparr>pixelSizeX = 1/4, pixelSizeY = 1/4, ladderLength = 8, ladderWidth = 2\<rparr>", THEN conjunct1]
  by (simp add: YToPixelCol_def fdiv_to_int_def to_int_def is_int_def INT_MIN_def INT_MAX_def)

section \<open>Results on ReconstructTrackerHit\<close>

lemma average_loop_sums:
  "average_loop d hs a =
     \<lparr>pos0 = pos0 a + sum_list (map posX (over_threshold d hs)),
      pos1 = pos1 a + sum_list (map posY (over_threshold d hs)),
      acc_charge = acc_charge a + sum_list (map EDep (over_threshold d hs)),
      acc_size = acc_size a + int (length (over_threshold d hs))\<rparr>"
proof (induction hs arbitrary: a)
  case Nil
  show ?case by (simp add: over_threshold_def)
next
  case (Cons h hs)
  show ?case
  proof (cases "EDep h \<le> threshold d")
    case True
    then show ?thesis using Cons.IH [of a] by (simp add: over_threshold_def)
  next
    case False
    then show ?thesis
      by (simp add: Cons.IH over_threshold_def algebra_simps)
  qed
qed

lemma sum_list_EDep_pos:
  fixes xs :: "SimTrackerHit list"
  shows "\<forall>h \<in> set xs. 0 < EDep h \<Longrightarrow> xs \<noteq> [] \<Longrightarrow> 0 < sum_list (map EDep xs)"
proof (induction xs)
  case Nil
  then show ?case by simp
next
  case (Cons x xs)
  then show ?case by (cases xs) (auto intro: add_pos_pos)
qed

lemma sum_over_threshold_pos:
  assumes "0 \<le> threshold d" "over_threshold d hs \<noteq> []"
  shows "0 < sum_list (map EDep (over_threshold d hs))"
proof -
  have "\<forall>h \<in> set (over_threshold d hs). 0 < EDep h"
    using assms(1) by (auto simp: over_threshold_def)
  then show ?thesis using assms(2) by (rule sum_list_EDep_pos)
qed

lemma ReconstructTrackerHit_None:
  "ReconstructTrackerHit d hs = None \<longleftrightarrow> sum_list (map EDep (over_threshold d hs)) \<le> 0"
  by (simp add: ReconstructTrackerHit_def Let_def average_loop_sums not_less)

lemma ReconstructTrackerHit_Some:
  assumes "ReconstructTrackerHit d hs = Some r"
  shows "hitEDep r = (sum_list (map EDep (over_threshold d hs)) / electronsPerKeV d) * keV d"
    and "hitX r = sum_list (map posX (over_threshold d hs)) / real (length (over_threshold d hs))
                    - layerHalfThickness d * tanLorentzAngleX d"
    and "hitY r = sum_list (map posY (over_threshold d hs)) / real (length (over_threshold d hs))
                    - layerHalfThickness d * tanLorentzAngleY d"
  using assms
  by (auto simp: ReconstructTrackerHit_def Let_def average_loop_sums split: if_splits)

text \<open>
  C10, as stated, fails for a negative threshold: the result is \<^verbatim>\<open>nullptr\<close> when the
  summed charge is not positive, also when pixels lie above the threshold. With threshold
  \<open>-1\<close>, a single pixel of charge 0 is above the threshold and the result is \<^verbatim>\<open>nullptr\<close>.
\<close>

theorem ReconstructTrackerHit_negative_threshold:
  "ReconstructTrackerHit
     \<lparr>threshold = - 1, electronsPerKeV = 1, tanLorentzAngleX = 0, tanLorentzAngleY = 0,
      layerHalfThickness = 0, layerLadderLength = 1, layerLadderHalfWidth = 1,
      digiPixelSizeX = 1, digiPixelSizeY = 1, keV = 1\<rparr>
     [\<lparr>EDep = 0, posX = 0, posY = 0, posZ = 0\<rparr>] = None
   \<and> (- 1 :: real) < EDep \<lparr>EDep = 0, posX = 0, posY = 0, posZ = 0\<rparr>"
  by (simp add: ReconstructTrackerHit_def)

text \<open>
  C10, amended: ReconstructTrackerHit returns \<^verbatim>\<open>nullptr\<close> if and only if the sum of the
  charges strictly above the threshold is not positive; for a threshold \<open>\<ge> 0\<close> that is
  if and only if no input pixel has a charge strictly above the threshold. Otherwise the
  hit's charge is that sum divided by the electrons per keV (times the keV unit), and its
  x and y are the unweighted means of the positions of the pixels above the threshold,
  minus half the layer thickness times the tangent of the Lorentz angle.
\<close>

theorem ReconstructTrackerHit_unweighted_mean:
  "(ReconstructTrackerHit d hs = None \<longleftrightarrow> sum_list (map EDep (over_threshold d hs)) \<le> 0)
   \<and> (0 \<le> threshold d \<longrightarrow>
        (ReconstructTrackerHit d hs = None \<longleftrightarrow> \<not> (\<exists>hit \<in> set hs. threshold d < EDep hit)))
   \<and> (\<forall>r. ReconstructTrackerHit d hs = Some r \<longrightarrow>
        hitEDep r = (sum_list (map EDep (over_threshold d hs)) / electronsPerKeV d) * keV d
      \<and> hitX r = sum_list (map posX (over_threshold d hs)) / real (length (over_threshold d hs))
                    - layerHalfThickness d * tanLorentzAngleX d
      \<and> hitY r = sum_list (map posY (over_threshold d hs)) / real (length (over_threshold d hs))
                    - layerHalfThickness d * tanLorentzAngleY d)"
proof (intro conjI impI allI)
  show "ReconstructTrackerHit d hs = None \<longleftrightarrow> sum_list (map EDep (over_threshold d hs)) \<le> 0"
    by (rule ReconstructTrackerHit_None)
next
  assume thr: "0 \<le> threshold d"
  show "ReconstructTrackerHit d hs = None \<longleftrightarrow> \<not> (\<exists>hit \<in> set hs. threshold d < EDep hit)"
  proof (cases "over_threshold d hs = []")
    case True
    then have "\<not> (\<exists>hit \<in> set hs. threshold d < EDep hit)"
      by (auto simp: over_threshold_def filter_empty_conv)
    with True show ?thesis by (simp add: ReconstructTrackerHit_None)
  next
    case False
    then have "\<exists>hit \<in> set hs. threshold d < EDep hit"
      by (auto simp: over_threshold_def filter_empty_conv)
    with sum_over_threshold_pos [OF thr False] show ?thesis
      by (simp add: ReconstructTrackerHit_None)
  qed
next
  fix r assume "ReconstructTrackerHit d hs = Some r"
  then show "hitEDep r = (sum_list (map EDep (over_threshold d hs)) / electronsPerKeV d) * keV d"
    by (rule ReconstructTrackerHit_Some)
next
  fix r assume "ReconstructTrackerHit d hs = Some r"
  then show "hitX r = sum_list (map posX (over_threshold d hs)) / real (length (over_threshold d hs))
                    - layerHalfThickness d * tanLorentzAngleX d"
    by (rule ReconstructTrackerHit_Some)
next
  fix r assume "ReconstructTrackerHit d hs = Some r"
  then show "hitY r = sum_list (map posY (over_threshold d hs)) / real (length (over_threshold d hs))
                    - layerHalfThickness d * tanLorentzAngleY d"
    by (rule ReconstructTrackerHit_Some)
qed

theorem ReconstructTrackerHit_unweighted_mean_witness:
  "(\<exists>r. ReconstructTrackerHit
       \<lparr>threshold = 200, electronsPerKeV = 270, tanLorentzAngleX = 1/2, tanLorentzAngleY = 0,
        layerHalfThickness = 1/40, layerLadderLength = 10, layerLadderHalfWidth = 1,
        digiPixelSizeX = 1/40, digiPixelSizeY = 1/40, keV = 1\<rparr>
       [\<lparr>EDep = 300, posX = 1, posY = 2, posZ = 0\<rparr>,
        \<lparr>EDep = 200, posX = 7, posY = 7, posZ = 0\<rparr>,
        \<lparr>EDep = 240, posX = 2, posY = 4, posZ = 0\<rparr>] = Some r
      \<and> hitEDep r = 2 \<and> hitX r = 119/80 \<and> hitY r = 3)
   \<and> ReconstructTrackerHit
       \<lparr>threshold = 200, electronsPerKeV = 270, tanLorentzAngleX = 1/2, tanLorentzAngleY = 0,
        layerHalfThickness = 1/40, layerLadderLength = 10, layerLadderHalfWidth = 1,
        digiPixelSizeX = 1/40, digiPixelSizeY = 1/40, keV = 1\<rparr>
       [\<lparr>EDep = 200, posX = 7, posY = 7, posZ = 0\<rparr>] = None"
  using ReconstructTrackerHit_unweighted_mean
    [of "\<lparr>threshold = 200, electronsPerKeV = 270, tanLorentzAngleX = 1/2, tanLorentzAngleY = 0,
        layerHalfThickness = 1/40, layerLadderLength = 10, layerLadderHalfWidth = 1,
        digiPixelSizeX = 1/40, digiPixelSizeY = 1/40, keV = 1\<rparr>"
        "[\<lparr>EDep = 300, posX = 1, posY = 2, posZ = 0\<rparr>,
        \<lparr>EDep = 200, posX = 7, posY = 7, posZ = 0\<rparr>,
        \<lparr>EDep = 240, posX = 2, posY = 4, posZ = 0\<rparr>]"]
  by (simp add: ReconstructTrackerHit_def)

section \<open>Results on the constructor and the clock\<close>






section \<open>Results on GridPartitionedSet\<close>

subsection \<open>Roots, links and path compression\<close>

lemma decrD: "decr d \<Longrightarrow> d p \<le> p"
  by (simp add: decr_def)

lemma find_root_step: "0 \<le> d p \<Longrightarrow> d p < p \<Longrightarrow> find_root d p = find_root d (d p)"
  by (subst find_root.simps) simp

lemma find_root_stop: "\<not> (0 \<le> d p \<and> d p < p) \<Longrightarrow> find_root d p = d p"
  by (subst find_root.simps) auto

lemma find_root_self: "d p = p \<Longrightarrow> find_root d p = p"
  by (simp add: find_root_stop)

lemma find_root_sentinel: "d p < 0 \<Longrightarrow> find_root d p = d p"
  by (simp add: find_root_stop)

lemma find_root_le: "decr d \<Longrightarrow> find_root d p \<le> p"
proof (induction d p rule: find_root.induct)
  case (1 d p)
  show ?case
  proof (cases "0 \<le> d p \<and> d p < p")
    case True
    then have "find_root d (d p) \<le> d p" using 1 by blast
    moreover have "find_root d p = find_root d (d p)" using True by (simp add: find_root_step)
    ultimately show ?thesis using True by linarith
  next
    case False
    then have "find_root d p = d p" by (rule find_root_stop)
    then show ?thesis using decrD [OF 1(2), of p] by simp
  qed
qed

lemma find_root_fixed: "decr d \<Longrightarrow> 0 \<le> find_root d p \<Longrightarrow> d (find_root d p) = find_root d p"
proof (induction d p rule: find_root.induct)
  case (1 d p)
  show ?case
  proof (cases "0 \<le> d p \<and> d p < p")
    case True
    then have eq: "find_root d p = find_root d (d p)" by (simp add: find_root_step)
    then have "0 \<le> find_root d (d p)" using 1(3) by simp
    then have "d (find_root d (d p)) = find_root d (d p)" using 1(1) [OF True 1(2)] by blast
    then show ?thesis by (simp only: eq)
  next
    case False
    then have eq: "find_root d p = d p" by (rule find_root_stop)
    then have "0 \<le> d p" using 1(3) by simp
    then have "p \<le> d p" using False by simp
    then have "d p = p" using decrD [OF 1(2), of p] by simp
    then show ?thesis using eq by simp
  qed
qed

lemma find_root_idem: "decr d \<Longrightarrow> 0 \<le> find_root d p \<Longrightarrow> find_root d (find_root d p) = find_root d p"
  by (simp add: find_root_fixed find_root_self)

text \<open>An entry above a cell is not on the cell's path.\<close>

lemma find_root_upd_above: "decr d \<Longrightarrow> p < k \<Longrightarrow> find_root (d(k := v)) p = find_root d p"
proof (induction d p rule: find_root.induct)
  case (1 d p)
  have dp: "(d(k := v)) p = d p" using 1(3) by simp
  show ?case
  proof (cases "0 \<le> d p \<and> d p < p")
    case True
    then have "d p < k" using 1(3) by simp
    then have ih: "find_root (d(k := v)) (d p) = find_root d (d p)"
      using 1(1) [OF True 1(2)] by blast
    have "find_root (d(k := v)) p = find_root (d(k := v)) ((d(k := v)) p)"
      using True dp by (simp only: find_root_step)
    also have "\<dots> = find_root d (d p)" using ih dp by simp
    also have "\<dots> = find_root d p" using True by (simp add: find_root_step)
    finally show ?thesis .
  next
    case False
    then have a: "find_root d p = d p" by (rule find_root_stop)
    have "\<not> (0 \<le> (d(k := v)) p \<and> (d(k := v)) p < p)"
      using False by (simp only: dp not_False_eq_True)
    then have "find_root (d(k := v)) p = (d(k := v)) p" by (rule find_root_stop)
    also have "\<dots> = d p" by (rule dp)
    finally show ?thesis by (simp only: a)
  qed
qed

text \<open>Linking the larger of two roots to the smaller one relabels the class of the larger.\<close>

lemma find_root_link:
  "decr d \<Longrightarrow> d r1 = r1 \<Longrightarrow> d r2 = r2 \<Longrightarrow> 0 \<le> r1 \<Longrightarrow> r1 < r2 \<Longrightarrow>
     find_root (d(r2 := r1)) x = (if find_root d x = r2 then r1 else find_root d x)"
proof (induction d x rule: find_root.induct)
  case (1 d x)
  let ?d' = "d(r2 := r1)"
  show ?case
  proof (cases "x = r2")
    case True
    have a: "find_root d x = r2" using True 1(4) by (simp add: find_root_self)
    have b: "find_root ?d' x = r1"
    proof -
      have "?d' x = r1" using True by simp
      then have "find_root ?d' x = find_root ?d' r1"
        using 1(5,6) True find_root_step [of ?d' x] by simp
      also have "?d' r1 = r1" using 1(3,6) by simp
      then have "find_root ?d' r1 = r1" by (rule find_root_self)
      finally show ?thesis .
    qed
    show ?thesis by (simp only: a b if_True simp_thms)
  next
    case False
    then have dx: "?d' x = d x" by simp
    show ?thesis
    proof (cases "0 \<le> d x \<and> d x < x")
      case True
      have ih: "find_root ?d' (d x) = (if find_root d (d x) = r2 then r1 else find_root d (d x))"
        using 1(1) [OF True 1(2,3,4,5,6)] .
      have "find_root ?d' x = find_root ?d' (?d' x)"
        using True dx find_root_step [of ?d' x] by simp
      also have "\<dots> = find_root ?d' (d x)" by (simp only: dx)
      finally have a: "find_root ?d' x = find_root ?d' (d x)" .
      have b: "find_root d x = find_root d (d x)" using True by (simp add: find_root_step)
      show ?thesis by (simp only: a b ih)
    next
      case stop: False
      then have b: "find_root d x = d x" by (rule find_root_stop)
      have "\<not> (0 \<le> ?d' x \<and> ?d' x < x)" using stop by (simp only: dx not_False_eq_True)
      then have "find_root ?d' x = ?d' x" by (rule find_root_stop)
      then have a: "find_root ?d' x = d x" by (simp only: dx)
      have "d x \<noteq> r2"
      proof
        assume eq: "d x = r2"
        then have "x \<le> r2" using stop 1(5,6) by simp
        moreover have "r2 \<le> x" using decrD [OF 1(2), of x] eq by simp
        ultimately show False using False by simp
      qed
      then show ?thesis by (simp only: a b if_False)
    qed
  qed
qed

text \<open>Path compression leaves every root as it is.\<close>

lemma find_root_compress_step:
  "decr d \<Longrightarrow> 0 \<le> r \<Longrightarrow> find_root d p = r \<Longrightarrow> find_root (d(p := r)) x = find_root d x"
proof (induction d x rule: find_root.induct)
  case (1 d x)
  let ?d' = "d(p := r)"
  have rfix: "d r = r" using find_root_fixed [OF 1(2), of p] 1(3,4) by simp
  have rle: "r \<le> p" using find_root_le [OF 1(2), of p] 1(4) by simp
  show ?case
  proof (cases "x = p")
    case True
    show ?thesis
    proof (cases "r = p")
      case True
      then have "?d' = d" using rfix by auto
      then show ?thesis by simp
    next
      case False
      then have lt: "r < p" using rle by simp
      have "?d' x = r" using True by simp
      then have "find_root ?d' x = find_root ?d' r"
        using lt 1(3) True find_root_step [of ?d' x] by simp
      also have "?d' r = r" using rfix False by simp
      then have "find_root ?d' r = r" by (rule find_root_self)
      finally have a: "find_root ?d' x = r" .
      have b: "find_root d x = r" using 1(4) True by simp
      show ?thesis by (simp only: a b)
    qed
  next
    case False
    then have dx: "?d' x = d x" by simp
    show ?thesis
    proof (cases "0 \<le> d x \<and> d x < x")
      case True
      have ih: "find_root ?d' (d x) = find_root d (d x)"
        using 1(1) [OF True 1(2,3,4)] .
      have "find_root ?d' x = find_root ?d' (?d' x)"
        using True dx find_root_step [of ?d' x] by simp
      also have "\<dots> = find_root ?d' (d x)" by (simp only: dx)
      finally have a: "find_root ?d' x = find_root ?d' (d x)" .
      have b: "find_root d x = find_root d (d x)" using True by (simp add: find_root_step)
      show ?thesis by (simp only: a b ih)
    next
      case stop: False
      then have b: "find_root d x = d x" by (rule find_root_stop)
      have "\<not> (0 \<le> ?d' x \<and> ?d' x < x)" using stop by (simp only: dx not_False_eq_True)
      then have "find_root ?d' x = ?d' x" by (rule find_root_stop)
      then show ?thesis by (simp only: dx b)
    qed
  qed
qed

lemma decr_upd: "decr d \<Longrightarrow> v \<le> p \<Longrightarrow> decr (d(p := v))"
  by (simp add: decr_def)

lemma compress_keeps:
  "decr d \<Longrightarrow> 0 \<le> r \<Longrightarrow> find_root d p = r \<Longrightarrow>
     decr (compress d p r) \<and> (\<forall>x. find_root (compress d p r) x = find_root d x)"
proof (induction d p r rule: compress.induct)
  case (1 d p r)
  show ?case
  proof (cases "0 \<le> d p \<and> d p < p")
    case True
    let ?d' = "d(p := r)"
    have rle: "r \<le> p" using find_root_le [OF 1(2), of p] 1(4) by simp
    have d': "decr ?d'" using 1(2) rle by (rule decr_upd)
    have same: "\<And>x. find_root ?d' x = find_root d x"
      using 1(2,3,4) by (rule find_root_compress_step)
    have "find_root d (d p) = r" using True 1(4) by (simp add: find_root_step)
    then have "find_root ?d' (d p) = r" by (simp only: same)
    from 1(1) [OF True d' 1(3) this]
    have "decr (compress ?d' (d p) r) \<and> (\<forall>x. find_root (compress ?d' (d p) r) x = find_root ?d' x)" .
    moreover have "compress d p r = compress ?d' (d p) r"
      using True by (subst compress.simps) simp
    ultimately show ?thesis by (simp only: same simp_thms)
  next
    case False
    then have "compress d p r = d" by (subst compress.simps) auto
    then show ?thesis using 1(2) by simp
  qed
qed

subsection \<open>find, merge and invalidate on the grid\<close>

lemma find_grid_label:
  "fst (find_grid g x y) = find_root (data g) (to_linear (locate g) x y)"
  by (simp add: find_grid_def Let_def)

lemma find_grid_frame:
  "rows (snd (find_grid g x y)) = rows g"
  "columns (snd (find_grid g x y)) = columns g"
  "locate (snd (find_grid g x y)) = locate g"
  by (simp_all add: find_grid_def Let_def)

lemma find_grid_keeps:
  assumes "decr (data g)"
  shows "decr (data (snd (find_grid g x y)))"
    and "find_root (data (snd (find_grid g x y))) z = find_root (data g) z"
proof -
  let ?p = "to_linear (locate g) x y"
  let ?r = "find_root (data g) ?p"
  show "decr (data (snd (find_grid g x y)))"
  proof (cases "0 \<le> ?r")
    case True
    with compress_keeps [OF assms True refl] show ?thesis
      by (simp add: find_grid_def Let_def)
  next
    case False
    with assms show ?thesis by (simp add: find_grid_def Let_def)
  qed
  show "find_root (data (snd (find_grid g x y))) z = find_root (data g) z"
  proof (cases "0 \<le> ?r")
    case True
    with compress_keeps [OF assms True refl] show ?thesis
      by (simp add: find_grid_def Let_def)
  next
    case False
    then show ?thesis by (simp add: find_grid_def Let_def)
  qed
qed

lemma merge_frame:
  "rows (merge g x1 y1 x2 y2) = rows g"
  "columns (merge g x1 y1 x2 y2) = columns g"
  "locate (merge g x1 y1 x2 y2) = locate g"
  by (simp_all add: merge_def Let_def split_beta find_grid_frame)

lemma merge_roots:
  assumes d: "decr (data g)"
    and a: "a = find_root (data g) (to_linear (locate g) x1 y1)"
    and b: "b = find_root (data g) (to_linear (locate g) x2 y2)"
    and nn: "0 \<le> a" "0 \<le> b"
  shows "decr (data (merge g x1 y1 x2 y2))"
    and "find_root (data (merge g x1 y1 x2 y2)) z = relabel a b (find_root (data g) z)"
proof -
  let ?g1 = "snd (find_grid g x1 y1)"
  let ?g2 = "snd (find_grid ?g1 x2 y2)"
  have r1: "fst (find_grid g x1 y1) = a" by (simp add: find_grid_label a)
  have d1: "decr (data ?g1)" using d by (rule find_grid_keeps)
  have l1: "\<And>z. find_root (data ?g1) z = find_root (data g) z"
    using d by (rule find_grid_keeps)
  have r2: "fst (find_grid ?g1 x2 y2) = b"
    by (simp add: find_grid_label find_grid_frame l1 b)
  have d2: "decr (data ?g2)" using d1 by (rule find_grid_keeps)
  have l2: "\<And>z. find_root (data ?g2) z = find_root (data g) z"
    using find_grid_keeps(2) [OF d1] l1 by simp
  have fa: "data ?g2 a = a"
    using find_root_fixed [OF d2, of "to_linear (locate g) x1 y1"] nn(1) a l2 by simp
  have fb: "data ?g2 b = b"
    using find_root_fixed [OF d2, of "to_linear (locate g) x2 y2"] nn(2) b l2 by simp
  have m: "merge g x1 y1 x2 y2 =
      (if a < b then ?g2\<lparr>data := (data ?g2)(b := a)\<rparr>
       else if b < a then ?g2\<lparr>data := (data ?g2)(a := b)\<rparr> else ?g2)"
    using nn r1 r2 by (simp add: merge_def Let_def split_beta)
  consider (lt) "a < b" | (gt) "b < a" | (eq) "a = b" by linarith
  then show "decr (data (merge g x1 y1 x2 y2))"
  proof cases
    case lt
    then show ?thesis using m d2 by (simp add: decr_upd)
  next
    case gt
    then show ?thesis using m d2 by (simp add: decr_upd)
  next
    case eq
    then show ?thesis using m d2 by simp
  qed
  consider (lt) "a < b" | (gt) "b < a" | (eq) "a = b" by linarith
  then show "find_root (data (merge g x1 y1 x2 y2)) z = relabel a b (find_root (data g) z)"
  proof cases
    case lt
    have "find_root ((data ?g2)(b := a)) z
            = (if find_root (data ?g2) z = b then a else find_root (data ?g2) z)"
      using d2 fa fb nn(1) lt by (rule find_root_link)
    then show ?thesis using lt m by (simp add: relabel_def l2 max_def min_def)
  next
    case gt
    have "find_root ((data ?g2)(a := b)) z
            = (if find_root (data ?g2) z = a then b else find_root (data ?g2) z)"
      using d2 fb fa nn(2) gt by (rule find_root_link)
    then show ?thesis using gt m by (simp add: relabel_def l2 max_def min_def)
  next
    case eq
    then show ?thesis using m by (simp add: relabel_def l2)
  qed
qed

lemma invalidate_frame:
  "rows (invalidate g x y) = rows g"
  "columns (invalidate g x y) = columns g"
  "locate (invalidate g x y) = locate g"
  by (simp_all add: invalidate_def)

subsection \<open>Labels and connectivity\<close>

lemma rtrancl_from_isolated: "(k, q) \<in> E\<^sup>* \<Longrightarrow> k \<notin> Domain E \<Longrightarrow> q = k"
  by (erule converse_rtranclE) auto

lemma rtrancl_to_isolated: "(q, k) \<in> E\<^sup>* \<Longrightarrow> k \<notin> Range E \<Longrightarrow> q = k"
  by (erule rtranclE) auto

lemma agrees_add_vertex:
  assumes ag: "agrees S E L" and sub: "E \<subseteq> S \<times> S" and k: "k \<notin> S"
    and fresh: "\<forall>p \<in> S. L p \<noteq> L k"
  shows "agrees (insert k S) E L"
proof -
  have dom: "k \<notin> Domain E" and ran: "k \<notin> Range E" using sub k by auto
  have "L p = L q \<longleftrightarrow> (p, q) \<in> E\<^sup>*" if p: "p \<in> insert k S" and q: "q \<in> insert k S" for p q
  proof (cases "p = k")
    case pk: True
    show ?thesis
    proof (cases "q = k")
      case True
      with pk show ?thesis by simp
    next
      case False
      with q have qS: "q \<in> S" by simp
      then have "L q \<noteq> L k" using fresh by simp
      moreover have "(k, q) \<notin> E\<^sup>*" using rtrancl_from_isolated [OF _ dom] False by blast
      ultimately show ?thesis using pk by auto
    qed
  next
    case pS: False
    with p have pS': "p \<in> S" by simp
    show ?thesis
    proof (cases "q = k")
      case True
      have "L p \<noteq> L k" using fresh pS' by simp
      moreover have "(p, k) \<notin> E\<^sup>*" using rtrancl_to_isolated [OF _ ran] pS by blast
      ultimately show ?thesis using True by auto
    next
      case False
      with q have "q \<in> S" by simp
      with ag pS' show ?thesis by (simp add: agrees_def)
    qed
  qed
  then show ?thesis by (simp add: agrees_def)
qed

lemma relabel_same: "relabel a b a = relabel a b b"
  by (simp add: relabel_def max_def min_def)

lemma relabel_cong: "l = l' \<Longrightarrow> relabel a b l = relabel a b l'"
  by simp

lemma relabel_eq_cases:
  "relabel a b l = relabel a b l' \<Longrightarrow> l = l' \<or> (l = a \<and> l' = b) \<or> (l = b \<and> l' = a)"
  by (auto simp: relabel_def max_def min_def split: if_splits)

lemma agrees_add_edge:
  assumes ag: "agrees S E L" and sub: "E \<subseteq> S \<times> S" and a: "a \<in> S" and b: "b \<in> S"
    and L': "\<And>x. L' x = relabel (L a) (L b) (L x)"
  shows "agrees S (E \<union> {(a, b), (b, a)}) L'"
proof -
  let ?E = "E \<union> {(a, b), (b, a)}"
  have mono: "E\<^sup>* \<subseteq> ?E\<^sup>*" by (rule rtrancl_mono) blast
  have ab: "(a, b) \<in> ?E\<^sup>*" and ba: "(b, a) \<in> ?E\<^sup>*" by auto
  have path_eq: "L' p = L' q" if "(p, q) \<in> ?E\<^sup>*" for p q
    using that
  proof (induction rule: rtrancl_induct)
    case base
    show ?case by simp
  next
    case (step y z)
    have "L' y = L' z"
    proof (cases "(y, z) \<in> E")
      case True
      then have "y \<in> S" "z \<in> S" using sub by auto
      moreover have "(y, z) \<in> E\<^sup>*" using True by blast
      ultimately have "L y = L z" using ag by (simp add: agrees_def)
      then show ?thesis by (simp add: L')
    next
      case False
      with step(2) have "(y = a \<and> z = b) \<or> (y = b \<and> z = a)" by auto
      then show ?thesis using relabel_same [of "L a" "L b"] by (auto simp: L')
    qed
    with step(3) show ?case by simp
  qed
  have "L' p = L' q \<longleftrightarrow> (p, q) \<in> ?E\<^sup>*" if p: "p \<in> S" and q: "q \<in> S" for p q
  proof
    assume "L' p = L' q"
    then have "relabel (L a) (L b) (L p) = relabel (L a) (L b) (L q)" by (simp add: L')
    then consider "L p = L q" | "L p = L a \<and> L q = L b" | "L p = L b \<and> L q = L a"
      using relabel_eq_cases by blast
    then show "(p, q) \<in> ?E\<^sup>*"
    proof cases
      case 1
      then have "(p, q) \<in> E\<^sup>*" using ag p q by (simp add: agrees_def)
      then show ?thesis using mono by blast
    next
      case 2
      then have "L p = L a" "L b = L q" by simp_all
      then have "(p, a) \<in> E\<^sup>*" "(b, q) \<in> E\<^sup>*" using ag p q a b by (simp_all add: agrees_def)
      then have "(p, a) \<in> ?E\<^sup>*" "(b, q) \<in> ?E\<^sup>*" using mono by blast+
      with ab show ?thesis by (meson rtrancl_trans)
    next
      case 3
      then have "L p = L b" "L a = L q" by simp_all
      then have "(p, b) \<in> E\<^sup>*" "(a, q) \<in> E\<^sup>*" using ag p q a b by (simp_all add: agrees_def)
      then have "(p, b) \<in> ?E\<^sup>*" "(a, q) \<in> ?E\<^sup>*" using mono by blast+
      with ba show ?thesis by (meson rtrancl_trans)
    qed
  next
    assume "(p, q) \<in> ?E\<^sup>*"
    then show "L' p = L' q" by (rule path_eq)
  qed
  then show ?thesis by (simp add: agrees_def)
qed

lemma labelled_add_vertex:
  assumes "labelled R C k S E g" and k: "0 \<le> k"
  shows "labelled R C (k + 1) (insert k S) E g"
proof -
  let ?L = "find_root (data g)"
  from assms(1) have d: "decr (data g)" and S: "S \<subseteq> {0..<k}" and E: "E \<subseteq> S \<times> S"
    and out: "\<forall>p. k \<le> p \<longrightarrow> ?L p = p"
    and off: "\<forall>p. 0 \<le> p \<and> p < k \<and> p \<notin> S \<longrightarrow> ?L p < 0"
    and on: "\<forall>p \<in> S. 0 \<le> ?L p" and ag: "agrees S E ?L"
    by (simp_all add: labelled_def)
  have Lk: "?L k = k" using out by simp
  have kS: "k \<notin> S" using S by auto
  have "\<forall>p \<in> S. ?L p \<noteq> ?L k"
  proof
    fix p assume "p \<in> S"
    then have "p < k" using S by auto
    moreover have "?L p \<le> p" using d by (rule find_root_le)
    ultimately show "?L p \<noteq> ?L k" using Lk by simp
  qed
  with ag E kS have "agrees (insert k S) E ?L" by (rule agrees_add_vertex)
  moreover have "insert k S \<subseteq> {0..<k + 1}" using S k by auto
  moreover have "E \<subseteq> insert k S \<times> insert k S" using E by auto
  moreover have "\<forall>p. k + 1 \<le> p \<longrightarrow> ?L p = p" using out by simp
  moreover have "\<forall>p. 0 \<le> p \<and> p < k + 1 \<and> p \<notin> insert k S \<longrightarrow> ?L p < 0" using off by auto
  moreover have "\<forall>p \<in> insert k S. 0 \<le> ?L p" using on Lk k by auto
  ultimately show ?thesis using assms(1) by (simp add: labelled_def)
qed

lemma labelled_invalidate:
  assumes "labelled R C k S E g" and k: "0 \<le> k" and lin: "to_linear (locate g) r c = k"
  shows "labelled R C (k + 1) S E (invalidate g r c)"
proof -
  let ?L = "find_root (data g)"
  let ?d' = "(data g)(k := - 1)"
  from assms(1) have d: "decr (data g)" and S: "S \<subseteq> {0..<k}" and E: "E \<subseteq> S \<times> S"
    and out: "\<forall>p. k \<le> p \<longrightarrow> ?L p = p"
    and off: "\<forall>p. 0 \<le> p \<and> p < k \<and> p \<notin> S \<longrightarrow> ?L p < 0"
    and on: "\<forall>p \<in> S. 0 \<le> ?L p" and ag: "agrees S E ?L"
    by (simp_all add: labelled_def)
  have data': "data (invalidate g r c) = ?d'" by (simp add: invalidate_def lin)
  have below: "\<And>p. p < k \<Longrightarrow> find_root ?d' p = ?L p"
    using d by (rule find_root_upd_above)
  have at: "find_root ?d' k = - 1" by (simp add: find_root_sentinel)
  have above: "find_root ?d' p = p" if "k + 1 \<le> p" for p
  proof -
    have "?L p = p" using out that by simp
    then have "data g p = p" using find_root_fixed [OF d, of p] that k by simp
    then have "?d' p = p" using that by simp
    then show ?thesis by (rule find_root_self)
  qed
  have d': "decr ?d'" using d k by (simp add: decr_upd)
  have "agrees S E (find_root ?d')"
    unfolding agrees_def
  proof (intro ballI)
    fix p q assume "p \<in> S" "q \<in> S"
    then have "p < k" "q < k" using S by auto
    then have "find_root ?d' p = ?L p" "find_root ?d' q = ?L q" using below by simp_all
    then show "find_root ?d' p = find_root ?d' q \<longleftrightarrow> (p, q) \<in> E\<^sup>*"
      using ag \<open>p \<in> S\<close> \<open>q \<in> S\<close> by (simp add: agrees_def)
  qed
  moreover have "\<forall>p \<in> S. 0 \<le> find_root ?d' p"
  proof
    fix p assume "p \<in> S"
    then have "p < k" using S by auto
    then show "0 \<le> find_root ?d' p" using below on \<open>p \<in> S\<close> by simp
  qed
  moreover have "\<forall>p. 0 \<le> p \<and> p < k + 1 \<and> p \<notin> S \<longrightarrow> find_root ?d' p < 0"
  proof (intro allI impI)
    fix p assume p: "0 \<le> p \<and> p < k + 1 \<and> p \<notin> S"
    show "find_root ?d' p < 0"
    proof (cases "p = k")
      case True
      then show ?thesis using at by simp
    next
      case False
      with p have "p < k" by simp
      then show ?thesis using below off p by simp
    qed
  qed
  moreover have "S \<subseteq> {0..<k + 1}" using S by auto
  ultimately show ?thesis
    using assms(1) d' above E
    by (simp add: labelled_def data' invalidate_frame)
qed

lemma labelled_merge:
  assumes lab: "labelled R C k S E g" and a: "a \<in> S" and b: "b \<in> S"
    and la: "to_linear (GridPosition_new R C) xa ya = a"
    and lb: "to_linear (GridPosition_new R C) xb yb = b"
  shows "labelled R C k S (E \<union> {(a, b), (b, a)}) (merge g xa ya xb yb)"
proof -
  let ?L = "find_root (data g)"
  let ?g' = "merge g xa ya xb yb"
  from lab have d: "decr (data g)" and S: "S \<subseteq> {0..<k}" and E: "E \<subseteq> S \<times> S"
    and loc: "locate g = GridPosition_new R C"
    and out: "\<forall>p. k \<le> p \<longrightarrow> ?L p = p"
    and off: "\<forall>p. 0 \<le> p \<and> p < k \<and> p \<notin> S \<longrightarrow> ?L p < 0"
    and on: "\<forall>p \<in> S. 0 \<le> ?L p" and ag: "agrees S E ?L"
    by (simp_all add: labelled_def)
  have ra: "?L a = find_root (data g) (to_linear (locate g) xa ya)" by (simp add: loc la)
  have rb: "?L b = find_root (data g) (to_linear (locate g) xb yb)" by (simp add: loc lb)
  have nna: "0 \<le> ?L a" and nnb: "0 \<le> ?L b" using on a b by simp_all
  have d': "decr (data ?g')" using d ra rb nna nnb by (rule merge_roots)
  have L': "\<And>x. find_root (data ?g') x = relabel (?L a) (?L b) (?L x)"
    using d ra rb nna nnb by (rule merge_roots)
  have lea: "?L a < k" using find_root_le [OF d, of a] a S by auto
  have leb: "?L b < k" using find_root_le [OF d, of b] b S by auto
  have "agrees S (E \<union> {(a, b), (b, a)}) (find_root (data ?g'))"
    using ag E a b L' by (rule agrees_add_edge)
  moreover have "E \<union> {(a, b), (b, a)} \<subseteq> S \<times> S" using E a b by auto
  moreover have "\<forall>p. k \<le> p \<longrightarrow> find_root (data ?g') p = p"
    using out lea leb by (auto simp: L' relabel_def max_def)
  moreover have "\<forall>p. 0 \<le> p \<and> p < k \<and> p \<notin> S \<longrightarrow> find_root (data ?g') p < 0"
    using off nna nnb by (auto simp: L' relabel_def max_def min_def)
  moreover have "\<forall>p \<in> S. 0 \<le> find_root (data ?g') p"
    using on nna nnb by (auto simp: L' relabel_def max_def min_def)
  ultimately show ?thesis
    using lab d' by (simp add: labelled_def merge_frame)
qed

subsection \<open>Arithmetic of linear positions\<close>

lemma adjacent4_sym: "adjacent4 C p q = adjacent4 C q p"
  by (auto simp: adjacent4_def)

lemma div_mod_cell:
  "0 < C \<Longrightarrow> 0 \<le> c \<Longrightarrow> c < C \<Longrightarrow> (r * C + c) div C = r \<and> (r * C + c) mod C = (c::int)"
  by simp

lemma cell_decomp: "(k::int) = (k div C) * C + k mod C"
  by simp

lemma same_row_diff:
  assumes e: "(p::int) div C = q div C"
  shows "p - q = p mod C - q mod C"
proof -
  have p: "p div C * C + p mod C = p" by (rule div_mult_mod_eq)
  have q: "q div C * C + q mod C = q" by (rule div_mult_mod_eq)
  have "p - q = (p div C * C + p mod C) - (q div C * C + q mod C)" by (simp only: p q)
  also have "\<dots> = p mod C - q mod C" by (simp only: e add_diff_cancel_left)
  finally show ?thesis .
qed

lemma col_diff_aux: "(a * C + m) - (b * C + m) = C * (a - (b::int))"
  by (simp add: algebra_simps)

lemma same_col_diff:
  assumes e: "(p::int) mod C = q mod C"
  shows "p - q = C * (p div C - q div C)"
proof -
  have p: "p div C * C + p mod C = p" by (rule div_mult_mod_eq)
  have q: "q div C * C + q mod C = q" by (rule div_mult_mod_eq)
  have "p - q = (p div C * C + p mod C) - (q div C * C + q mod C)" by (simp only: p q)
  also have "\<dots> = (p div C * C + q mod C) - (q div C * C + q mod C)" by (simp only: e)
  also have "\<dots> = C * (p div C - q div C)" by (rule col_diff_aux)
  finally show ?thesis .
qed

lemma left_cell:
  assumes "0 < C" "(k::int) mod C \<noteq> 0"
  shows "(k - 1) div C = k div C \<and> (k - 1) mod C = k mod C - 1"
proof -
  have "0 \<le> k mod C" "k mod C < C" using assms(1) by simp_all
  then have c: "0 \<le> k mod C - 1" "k mod C - 1 < C" using assms(2) by simp_all
  have "k div C * C + k mod C = k" by (rule div_mult_mod_eq)
  then have e: "(k div C) * C + (k mod C - 1) = k - 1" by linarith
  from div_mod_cell [OF assms(1) c, of "k div C"] show ?thesis by (simp only: e)
qed

lemma up_cell:
  assumes "0 < C"
  shows "((k::int) - C) div C = k div C - 1 \<and> (k - C) mod C = k mod C"
proof -
  have c: "0 \<le> k mod C" "k mod C < C" using assms(1) by simp_all
  have "k div C * C + k mod C = k" by (rule div_mult_mod_eq)
  then have e: "(k div C - 1) * C + k mod C = k - C" by (simp add: algebra_simps)
  from div_mod_cell [OF assms(1) c, of "k div C - 1"] show ?thesis by (simp only: e)
qed

lemma adjacent4_below:
  assumes C: "0 < C" and lt: "q < k"
  shows "adjacent4 C k q \<longleftrightarrow> (q = k - 1 \<and> k mod C \<noteq> 0) \<or> q = k - C"
proof
  assume "adjacent4 C k q"
  then consider (row) "k div C = q div C" "\<bar>k mod C - q mod C\<bar> = 1"
    | (col) "k mod C = q mod C" "\<bar>k div C - q div C\<bar> = 1"
    by (auto simp: adjacent4_def)
  then show "(q = k - 1 \<and> k mod C \<noteq> 0) \<or> q = k - C"
  proof cases
    case row
    have "k - q = k mod C - q mod C" using row(1) by (rule same_row_diff)
    with row(2) lt have d: "k mod C - q mod C = 1" by linarith
    then have "q = k - 1" using \<open>k - q = k mod C - q mod C\<close> by simp
    moreover have "0 \<le> q mod C" using C by simp
    then have "k mod C \<noteq> 0" using d by simp
    ultimately show ?thesis by simp
  next
    case col
    have e: "k - q = C * (k div C - q div C)" using col(1) by (rule same_col_diff)
    have "k div C - q div C = 1"
    proof (rule ccontr)
      assume "k div C - q div C \<noteq> 1"
      with col(2) have "k div C - q div C = - 1" by linarith
      with e have "k - q = - C" by simp
      with C lt show False by simp
    qed
    with e show ?thesis by simp
  qed
next
  assume "(q = k - 1 \<and> k mod C \<noteq> 0) \<or> q = k - C"
  then show "adjacent4 C k q"
  proof
    assume a: "q = k - 1 \<and> k mod C \<noteq> 0"
    then show ?thesis using left_cell [OF C, of k] by (simp add: adjacent4_def)
  next
    assume "q = k - C"
    then show ?thesis using up_cell [OF C, of k] by (simp add: adjacent4_def)
  qed
qed

lemma seen_Suc:
  assumes "0 \<le> k"
  shows "seen A C (k + 1) = (if A (k div C) (k mod C) then insert k (seen A C k) else seen A C k)"
proof -
  have "p < k + 1 \<longleftrightarrow> p = k \<or> p < k" for p by linarith
  then have "seen A C (k + 1) = {p. 0 \<le> p \<and> (p = k \<or> p < k) \<and> A (p div C) (p mod C)}"
    by (simp add: seen_def)
  also have "\<dots> = (if A (k div C) (k mod C) then insert k (seen A C k) else seen A C k)"
    using assms by (auto simp: seen_def)
  finally show ?thesis .
qed

lemma seen_bound: "seen A C k \<subseteq> {0..<k}"
  by (auto simp: seen_def)

lemma edges_sub: "edges A C k \<subseteq> seen A C k \<times> seen A C k"
  by (auto simp: edges_def)

lemma not_adjacent4_self: "\<not> adjacent4 C k k"
  by (simp add: adjacent4_def)

lemma edges_Suc_inactive:
  assumes "0 \<le> k" "\<not> A (k div C) (k mod C)"
  shows "edges A C (k + 1) = edges A C k"
  using assms by (simp add: edges_def seen_Suc)

lemma new_neighbours:
  assumes C: "0 < C"
  shows "{q \<in> seen A C k. adjacent4 C k q} =
           (if k mod C \<noteq> 0 \<and> k - 1 \<in> seen A C k then {k - 1} else {})
             \<union> (if k - C \<in> seen A C k then {k - C} else {})"
proof (rule set_eqI)
  fix q
  let ?S = "seen A C k"
  show "q \<in> {q \<in> ?S. adjacent4 C k q} \<longleftrightarrow> q \<in> (if k mod C \<noteq> 0 \<and> k - 1 \<in> ?S then {k - 1} else {})
                 \<union> (if k - C \<in> ?S then {k - C} else {})"
  proof (cases "q \<in> ?S")
    case True
    then have "q < k" by (simp add: seen_def)
    then have "adjacent4 C k q \<longleftrightarrow> (q = k - 1 \<and> k mod C \<noteq> 0) \<or> q = k - C"
      by (rule adjacent4_below [OF C])
    then show ?thesis using True by auto
  next
    case False
    then show ?thesis by auto
  qed
qed

lemma edges_insert:
  assumes kS: "k \<notin> seen A C k" and S: "seen A C (k + 1) = insert k (seen A C k)"
  shows "edges A C (k + 1) =
           edges A C k \<union> ({k} \<times> {q \<in> seen A C k. adjacent4 C k q})
                       \<union> ({q \<in> seen A C k. adjacent4 C k q} \<times> {k})"
proof (rule set_eqI, clarify)
  fix p q
  let ?S = "seen A C k"
  have sym: "adjacent4 C p k = adjacent4 C k p" by (rule adjacent4_sym)
  have nk: "\<not> adjacent4 C k k" by (rule not_adjacent4_self)
  have l: "(p, q) \<in> edges A C (k + 1) \<longleftrightarrow>
             (p = k \<or> p \<in> ?S) \<and> (q = k \<or> q \<in> ?S) \<and> adjacent4 C p q"
    by (simp add: edges_def S)
  have r: "(p, q) \<in> edges A C k \<union> ({k} \<times> {q \<in> ?S. adjacent4 C k q})
                       \<union> ({q \<in> ?S. adjacent4 C k q} \<times> {k}) \<longleftrightarrow>
             (p \<in> ?S \<and> q \<in> ?S \<and> adjacent4 C p q)
             \<or> (p = k \<and> q \<in> ?S \<and> adjacent4 C k q)
             \<or> (q = k \<and> p \<in> ?S \<and> adjacent4 C k p)"
    by (simp add: edges_def) blast
  show "(p, q) \<in> edges A C (k + 1) \<longleftrightarrow>
          (p, q) \<in> edges A C k \<union> ({k} \<times> {q \<in> ?S. adjacent4 C k q})
                       \<union> ({q \<in> ?S. adjacent4 C k q} \<times> {k})"
    unfolding l r using kS nk sym by blast
qed

lemma edges_Suc_active:
  assumes C: "0 < C" and k: "0 \<le> k" and act: "A (k div C) (k mod C)"
  shows "edges A C (k + 1) =
           (edges A C k
             \<union> (if k mod C \<noteq> 0 \<and> k - 1 \<in> seen A C k then {(k, k - 1), (k - 1, k)} else {}))
             \<union> (if k - C \<in> seen A C k then {(k, k - C), (k - C, k)} else {})"
proof -
  have S: "seen A C (k + 1) = insert k (seen A C k)" using k act by (simp add: seen_Suc)
  have kS: "k \<notin> seen A C k" by (simp add: seen_def)
  note e = edges_insert [OF kS S] new_neighbours [OF C, of A k]
  show ?thesis
  proof (cases "k mod C \<noteq> 0 \<and> k - 1 \<in> seen A C k")
    case left: True
    show ?thesis
    proof (cases "k - C \<in> seen A C k")
      case True
      with left show ?thesis by (simp only: e simp_thms if_True if_False) blast
    next
      case False
      with left show ?thesis by (simp only: e simp_thms if_True if_False) blast
    qed
  next
    case noleft: False
    show ?thesis
    proof (cases "k - C \<in> seen A C k")
      case True
      with noleft show ?thesis by (simp only: e simp_thms if_True if_False) blast
    next
      case False
      with noleft show ?thesis by (simp only: e simp_thms if_True if_False) blast
    qed
  qed
qed

subsection \<open>The scan\<close>

lemma to_linear_in_grid:
  assumes C: "0 < C" and r: "0 \<le> r" "r < R" and c: "0 \<le> c" "c < C" and fit: "R * C \<le> INT_MAX"
  shows "to_linear (GridPosition_new R C) r c = r * C + c"
proof -
  have "(r + 1) * C \<le> R * C" using r(2) C by (intro mult_right_mono) simp_all
  then have "r * C + c < R * C" using c(2) by (simp add: algebra_simps)
  moreover have "0 \<le> r * C" using r(1) C by simp
  ultimately have "is_int (r * C + c)"
    using c(1) fit by (simp add: is_int_def INT_MIN_def)
  then show ?thesis by (simp add: to_linear_def GridPosition_new_def wrap_int_id)
qed

lemma scan_cell_step:
  assumes inv: "pass_inv A R C k g" and C: "0 < C" and r: "0 \<le> r" "r < R"
    and c: "0 \<le> c" "c < C" and k: "k = r * C + c" and fit: "R * C \<le> INT_MAX"
  shows "pass_inv A R C (k + 1) (scan_cell A g r c)"
proof -
  let ?S = "seen A C k"
  have lab: "labelled R C k ?S (edges A C k) g" using inv by (simp add: pass_inv_def)
  then have loc: "locate g = GridPosition_new R C" by (simp add: labelled_def)
  have k0: "0 \<le> k" using k r(1) c(1) C by simp
  have dm: "k div C = r" "k mod C = c" using div_mod_cell [OF C c, of r] k by simp_all
  have lk: "to_linear (GridPosition_new R C) r c = k"
    using to_linear_in_grid [OF C r c fit] k by simp
  show ?thesis
  proof (cases "A r c")
    case False
    then have "scan_cell A g r c = invalidate g r c" by (simp add: scan_cell_def)
    moreover have "labelled R C (k + 1) ?S (edges A C k) (invalidate g r c)"
      using lab k0 by (rule labelled_invalidate) (simp add: loc lk)
    moreover have "seen A C (k + 1) = ?S" using False k0 dm by (simp add: seen_Suc)
    moreover have "edges A C (k + 1) = edges A C k"
      using k0 False dm by (simp add: edges_Suc_inactive)
    ultimately show ?thesis by (simp add: pass_inv_def)
  next
    case act: True
    let ?S' = "insert k ?S"
    have S': "seen A C (k + 1) = ?S'" using act k0 dm by (simp add: seen_Suc)
    have l0: "labelled R C (k + 1) ?S' (edges A C k) g"
      using lab k0 by (rule labelled_add_vertex)
    let ?lc = "0 < c \<and> A r (c - 1)"
    let ?uc = "0 < r \<and> A (r - 1) c"
    let ?g1 = "if ?lc then merge g r c r (c - 1) else g"
    let ?g2 = "if ?uc then merge ?g1 r c (r - 1) c else ?g1"
    let ?E1 = "edges A C k \<union> (if k mod C \<noteq> 0 \<and> k - 1 \<in> ?S then {(k, k - 1), (k - 1, k)} else {})"
    let ?E2 = "?E1 \<union> (if k - C \<in> ?S then {(k, k - C), (k - C, k)} else {})"
    have lc: "?lc \<longleftrightarrow> k mod C \<noteq> 0 \<and> k - 1 \<in> ?S"
    proof (cases "0 < c")
      case True
      then have "k mod C \<noteq> 0" using dm by simp
      from left_cell [OF C this] have "(k - 1) div C = r" "(k - 1) mod C = c - 1"
        using dm by simp_all
      moreover have "0 \<le> r * C" using r(1) C by simp
      then have "0 \<le> k - 1" using k True by simp
      ultimately show ?thesis using True dm by (simp add: seen_def)
    next
      case False
      then have "c = 0" using c(1) by simp
      then show ?thesis using dm by simp
    qed
    have uc: "?uc \<longleftrightarrow> k - C \<in> ?S"
    proof -
      from up_cell [OF C, of k] have d: "(k - C) div C = r - 1" "(k - C) mod C = c"
        using dm by simp_all
      have e: "k - C = (r - 1) * C + c" using k by (simp add: algebra_simps)
      have "0 \<le> k - C \<longleftrightarrow> 0 < r"
      proof
        assume "0 \<le> k - C"
        show "0 < r"
        proof (rule ccontr)
          assume "\<not> 0 < r"
          then have "r = 0" using r(1) by simp
          then have "k - C = c - C" using k by simp
          with c(2) \<open>0 \<le> k - C\<close> show False by simp
        qed
      next
        assume "0 < r"
        then have "0 \<le> (r - 1) * C" using C by simp
        then show "0 \<le> k - C" using e c(1) by simp
      qed
      then show ?thesis using d C by (simp add: seen_def)
    qed
    have l1: "labelled R C (k + 1) ?S' ?E1 ?g1"
    proof (cases ?lc)
      case True
      then have b: "k - 1 \<in> ?S'" using lc by simp
      have "to_linear (GridPosition_new R C) r (c - 1) = r * C + (c - 1)"
        using True c(2) by (intro to_linear_in_grid [OF C r _ _ fit]) simp_all
      then have lb: "to_linear (GridPosition_new R C) r (c - 1) = k - 1" using k by simp
      have m: "labelled R C (k + 1) ?S' (edges A C k \<union> {(k, k - 1), (k - 1, k)}) (merge g r c r (c - 1))"
        using l0 _ b lk lb by (rule labelled_merge) simp
      have g1: "?g1 = merge g r c r (c - 1)" using True by simp
      have E1: "?E1 = edges A C k \<union> {(k, k - 1), (k - 1, k)}" using True lc by simp
      show ?thesis using m by (simp only: g1 E1)
    next
      case False
      have g1: "?g1 = g" using False by (simp only: if_False)
      have E1: "?E1 = edges A C k" using False by (simp only: lc [symmetric] if_False Un_empty_right)
      show ?thesis using l0 by (simp only: g1 E1)
    qed
    have l2: "labelled R C (k + 1) ?S' ?E2 ?g2"
    proof (cases ?uc)
      case True
      then have b: "k - C \<in> ?S'" using uc by simp
      have "to_linear (GridPosition_new R C) (r - 1) c = (r - 1) * C + c"
        using True r(2) by (intro to_linear_in_grid [OF C _ _ c fit]) simp_all
      then have lb: "to_linear (GridPosition_new R C) (r - 1) c = k - C"
        using k by (simp add: algebra_simps)
      have m: "labelled R C (k + 1) ?S' (?E1 \<union> {(k, k - C), (k - C, k)}) (merge ?g1 r c (r - 1) c)"
        using l1 _ b lk lb by (rule labelled_merge) simp
      have g2: "?g2 = merge ?g1 r c (r - 1) c" using True by simp
      have E2: "?E2 = ?E1 \<union> {(k, k - C), (k - C, k)}" using True uc by simp
      show ?thesis using m by (simp only: g2 E2)
    next
      case False
      have g2: "?g2 = ?g1" using False by (simp only: if_False)
      have E2: "?E2 = ?E1" using False by (simp only: uc [symmetric] if_False Un_empty_right)
      show ?thesis using l1 by (simp only: g2 E2)
    qed
    have "scan_cell A g r c = ?g2" using act by (simp add: scan_cell_def Let_def)
    moreover have "edges A C (k + 1) = ?E2"
      using C k0 act dm by (simp only: edges_Suc_active)
    ultimately show ?thesis using l2 S' by (simp only: pass_inv_def)
  qed
qed

lemma pass_inv_columns: "pass_inv A R C k g \<Longrightarrow> columns g = C"
  by (simp add: pass_inv_def labelled_def)

lemma pass_inv_rows: "pass_inv A R C k g \<Longrightarrow> rows g = R"
  by (simp add: pass_inv_def labelled_def)

lemma scan_row_prefix:
  assumes C: "0 < C" and r: "0 \<le> r" "r < R" and fit: "R * C \<le> INT_MAX"
    and inv: "pass_inv A R C (r * C) g"
  shows "j \<le> nat C \<Longrightarrow>
     pass_inv A R C (r * C + int j) (foldl (\<lambda>g' c. scan_cell A g' r (int c)) g [0..<j])"
proof (induction j)
  case 0
  show ?case using inv by simp
next
  case (Suc j)
  then have ih: "pass_inv A R C (r * C + int j) (foldl (\<lambda>g' c. scan_cell A g' r (int c)) g [0..<j])"
    by simp
  have c: "0 \<le> int j" "int j < C" using Suc(2) by simp_all
  have "pass_inv A R C (r * C + int j + 1)
          (scan_cell A (foldl (\<lambda>g' c. scan_cell A g' r (int c)) g [0..<j]) r (int j))"
    using ih C r c refl fit by (rule scan_cell_step)
  moreover have "r * C + int j + 1 = r * C + int (Suc j)" by simp
  ultimately show ?case by (simp only: upt_Suc_append [OF le0] foldl_append foldl.simps)
qed

lemma scan_row_pass:
  assumes C: "0 < C" and r: "0 \<le> r" "r < R" and fit: "R * C \<le> INT_MAX"
    and inv: "pass_inv A R C (r * C) g"
  shows "pass_inv A R C ((r + 1) * C) (scan_row A g r)"
proof -
  have "pass_inv A R C (r * C + int (nat C))
          (foldl (\<lambda>g' c. scan_cell A g' r (int c)) g [0..<nat C])"
    using C r fit inv by (rule scan_row_prefix) simp
  moreover have "r * C + int (nat C) = (r + 1) * C" using C by (simp add: algebra_simps)
  ultimately show ?thesis
    using pass_inv_columns [OF inv] by (simp add: scan_row_def)
qed

lemma scan_grid_prefix:
  assumes C: "0 < C" and fit: "R * C \<le> INT_MAX" and inv: "pass_inv A R C 0 g"
  shows "i \<le> nat R \<Longrightarrow>
     pass_inv A R C (int i * C) (foldl (\<lambda>g' r. scan_row A g' (int r)) g [0..<i])"
proof (induction i)
  case 0
  show ?case using inv by simp
next
  case (Suc i)
  then have ih: "pass_inv A R C (int i * C) (foldl (\<lambda>g' r. scan_row A g' (int r)) g [0..<i])"
    by simp
  have r: "0 \<le> int i" "int i < R" using Suc(2) by simp_all
  have "pass_inv A R C ((int i + 1) * C)
          (scan_row A (foldl (\<lambda>g' r. scan_row A g' (int r)) g [0..<i]) (int i))"
    using C r fit ih by (rule scan_row_pass)
  moreover have "int (Suc i) = int i + 1" by simp
  ultimately show ?case by (simp only: upt_Suc_append [OF le0] foldl_append foldl.simps)
qed

lemma scan_grid_pass:
  assumes C: "0 < C" and R: "0 < R" and fit: "R * C \<le> INT_MAX" and inv: "pass_inv A R C 0 g"
  shows "pass_inv A R C (R * C) (scan_grid A g)"
proof -
  have "pass_inv A R C (int (nat R) * C) (foldl (\<lambda>g' r. scan_row A g' (int r)) g [0..<nat R])"
    using C fit inv by (rule scan_grid_prefix) simp
  then show ?thesis using R pass_inv_rows [OF inv] by (simp add: scan_grid_def)
qed

lemma init_pass_inv: "pass_inv A R C 0 (init (GridPartitionedSet_new R C))"
proof -
  have "seen A C 0 = {}" by (auto simp: seen_def)
  moreover have "edges A C 0 = {}" by (auto simp: edges_def seen_def)
  moreover have "decr (\<lambda>p. p)" by (simp add: decr_def)
  moreover have "\<forall>p. find_root (\<lambda>p. p) p = p" by (simp add: find_root_self)
  ultimately show ?thesis
    by (simp add: pass_inv_def labelled_def init_def GridPartitionedSet_new_def agrees_def)
qed

lemma scanned_labelled:
  assumes "0 < C" "0 < R" "R * C \<le> INT_MAX"
  shows "labelled R C (R * C) (seen A C (R * C)) (edges A C (R * C))
           (scan_grid A (init (GridPartitionedSet_new R C)))"
  using scan_grid_pass [OF assms init_pass_inv] by (simp add: pass_inv_def)

subsection \<open>The clusters handed out\<close>

lemma active_cells_seen: "active_cells A R C = seen A C (R * C)"
  by (simp add: active_cells_def seen_def)

lemma connected4_edges: "connected4 A R C = (edges A C (R * C))\<^sup>*"
  by (simp add: connected4_def edges_def active_cells_seen)

subsection \<open>Runs of a sorted buffer\<close>

lemma all_clusters_Nil: "c_buffer g = [] \<Longrightarrow> all_clusters g = []"
  by (subst all_clusters.simps) (simp add: next_cluster_def)

lemma all_clusters_Cons:
  "c_buffer g = cd # cds \<Longrightarrow>
     all_clusters g =
       map cd_pos (cd # takeWhile (\<lambda>c. cd_label c = cd_label cd) cds)
         # all_clusters (g\<lparr>c_buffer := dropWhile (\<lambda>c. cd_label c = cd_label cd) cds\<rparr>)"
  by (subst all_clusters.simps) (simp add: next_cluster_def)

lemma takeWhile_sorted_filter:
  "sorted (map f xs) \<Longrightarrow> \<forall>x \<in> set xs. l \<le> f x \<Longrightarrow>
     takeWhile (\<lambda>x. f x = l) xs = filter (\<lambda>x. f x = (l::int)) xs"
proof (induction xs)
  case Nil
  show ?case by simp
next
  case (Cons x xs)
  show ?case
  proof (cases "f x = l")
    case True
    with Cons show ?thesis by simp
  next
    case False
    with Cons(3) have "l < f x" by (simp add: order.strict_iff_order)
    moreover have "\<forall>y \<in> set xs. f x \<le> f y" using Cons(2) by simp
    ultimately have "\<forall>y \<in> set xs. f y \<noteq> l" by fastforce
    then have "filter (\<lambda>x. f x = l) xs = []" by (simp add: filter_empty_conv)
    with False show ?thesis by simp
  qed
qed

lemma dropWhile_sorted_filter:
  "sorted (map f xs) \<Longrightarrow> \<forall>x \<in> set xs. l \<le> f x \<Longrightarrow>
     dropWhile (\<lambda>x. f x = l) xs = filter (\<lambda>x. f x \<noteq> (l::int)) xs"
proof (induction xs)
  case Nil
  show ?case by simp
next
  case (Cons x xs)
  show ?case
  proof (cases "f x = l")
    case True
    with Cons show ?thesis by simp
  next
    case False
    with Cons(3) have "l < f x" by (simp add: order.strict_iff_order)
    moreover have "\<forall>y \<in> set xs. f x \<le> f y" using Cons(2) by simp
    ultimately have "\<forall>y \<in> set xs. f y \<noteq> l" by fastforce
    then have "filter (\<lambda>x. f x \<noteq> l) xs = xs" by (simp add: filter_id_conv)
    with False show ?thesis by simp
  qed
qed

lemma all_clusters_concat: "concat (all_clusters g) = map cd_pos (c_buffer g)"
proof (induction "length (c_buffer g)" arbitrary: g rule: less_induct)
  case less
  show ?case
  proof (cases "c_buffer g")
    case Nil
    then show ?thesis by (simp add: all_clusters_Nil)
  next
    case (Cons cd cds)
    let ?P = "\<lambda>c. cd_label c = cd_label cd"
    let ?g' = "g\<lparr>c_buffer := dropWhile ?P cds\<rparr>"
    have "length (c_buffer ?g') < length (c_buffer g)"
      using Cons length_dropWhile_le [of ?P cds] by simp
    then have "concat (all_clusters ?g') = map cd_pos (dropWhile ?P cds)"
      using less [of ?g'] by simp
    then have "concat (all_clusters g)
                 = map cd_pos (cd # takeWhile ?P cds) @ map cd_pos (dropWhile ?P cds)"
      by (simp only: all_clusters_Cons [OF Cons] concat.simps)
    also have "\<dots> = map cd_pos (cd # (takeWhile ?P cds @ dropWhile ?P cds))"
      by (simp only: map_append append_Cons list.map)
    also have "\<dots> = map cd_pos (c_buffer g)"
      by (simp only: takeWhile_dropWhile_id Cons)
    finally show ?thesis .
  qed
qed

lemma all_clusters_nonempty: "[] \<notin> set (all_clusters g)"
proof (induction "length (c_buffer g)" arbitrary: g rule: less_induct)
  case less
  show ?case
  proof (cases "c_buffer g")
    case Nil
    then show ?thesis by (simp add: all_clusters_Nil)
  next
    case (Cons cd cds)
    let ?P = "\<lambda>c. cd_label c = cd_label cd"
    let ?g' = "g\<lparr>c_buffer := dropWhile ?P cds\<rparr>"
    have "length (c_buffer ?g') < length (c_buffer g)"
      using Cons length_dropWhile_le [of ?P cds] by simp
    then have "[] \<notin> set (all_clusters ?g')" using less [of ?g'] by simp
    then show ?thesis by (simp add: all_clusters_Cons [OF Cons])
  qed
qed

lemma all_clusters_runs:
  "sorted (map cd_label (c_buffer g)) \<Longrightarrow> c \<in> set (all_clusters g) \<Longrightarrow>
     \<exists>l. c = map cd_pos (filter (\<lambda>x. cd_label x = l) (c_buffer g))"
proof (induction "length (c_buffer g)" arbitrary: g rule: less_induct)
  case less
  show ?case
  proof (cases "c_buffer g")
    case Nil
    with less(3) show ?thesis by (simp add: all_clusters_Nil)
  next
    case (Cons cd cds)
    let ?l0 = "cd_label cd"
    let ?P = "\<lambda>c. cd_label c = ?l0"
    let ?g' = "g\<lparr>c_buffer := dropWhile ?P cds\<rparr>"
    have srt: "sorted (map cd_label cds)" and low: "\<forall>x \<in> set cds. ?l0 \<le> cd_label x"
      using less(2) Cons by simp_all
    have tw: "takeWhile ?P cds = filter ?P cds" using srt low by (rule takeWhile_sorted_filter)
    have dw: "dropWhile ?P cds = filter (\<lambda>x. cd_label x \<noteq> ?l0) cds"
      using srt low by (rule dropWhile_sorted_filter)
    from less(3) consider (first) "c = map cd_pos (cd # takeWhile ?P cds)"
      | (rest) "c \<in> set (all_clusters ?g')"
      by (auto simp: all_clusters_Cons [OF Cons])
    then show ?thesis
    proof cases
      case first
      then have "c = map cd_pos (filter ?P (c_buffer g))" using tw Cons by simp
      then show ?thesis by blast
    next
      case rest
      have len: "length (c_buffer ?g') < length (c_buffer g)"
        using Cons length_dropWhile_le [of ?P cds] by simp
      have "sorted (map cd_label (c_buffer ?g'))"
        using srt by (simp add: dw sorted_filter)
      from less(1) [OF len this rest] obtain l
        where l: "c = map cd_pos (filter (\<lambda>x. cd_label x = l) (dropWhile ?P cds))" by auto
      have "c \<noteq> []" using rest all_clusters_nonempty [of ?g'] by auto
      with l have "l \<noteq> ?l0" by (auto simp: dw filter_empty_conv)
      then have "filter (\<lambda>x. cd_label x = l) (dropWhile ?P cds)
                   = filter (\<lambda>x. cd_label x = l) (c_buffer g)"
        using Cons by (auto simp: dw intro: filter_cong)
      with l show ?thesis by auto
    qed
  qed
qed

lemma rtrancl_stays:
  assumes "(p, q) \<in> E\<^sup>*" "E \<subseteq> S \<times> S" "p \<in> S"
  shows "q \<in> S"
  using assms by (induction rule: rtrancl_induct) auto

lemma labelled_cells_entries:
  assumes "cd \<in> set (labelled_cells g)"
  shows "cd_label cd = find_root (data g) (cd_pos cd)" and "0 \<le> cd_label cd"
    and "0 \<le> cd_pos cd" and "cd_pos cd < rows g * columns g"
  using assms by (auto simp: labelled_cells_def)

lemma labelled_cells_pos:
  "cd_pos ` set (labelled_cells g)
     = {p. 0 \<le> p \<and> p < rows g * columns g \<and> 0 \<le> find_root (data g) p}"
proof (rule set_eqI)
  fix p
  show "p \<in> cd_pos ` set (labelled_cells g)
          \<longleftrightarrow> p \<in> {p. 0 \<le> p \<and> p < rows g * columns g \<and> 0 \<le> find_root (data g) p}"
  proof
    assume "p \<in> cd_pos ` set (labelled_cells g)"
    then obtain cd where "cd \<in> set (labelled_cells g)" "p = cd_pos cd" by auto
    then show "p \<in> {p. 0 \<le> p \<and> p < rows g * columns g \<and> 0 \<le> find_root (data g) p}"
      using labelled_cells_entries [of cd g] by simp
  next
    assume "p \<in> {p. 0 \<le> p \<and> p < rows g * columns g \<and> 0 \<le> find_root (data g) p}"
    then have p: "0 \<le> p" "p < rows g * columns g" "0 \<le> find_root (data g) p" by simp_all
    let ?cd = "\<lparr>cd_label = find_root (data g) p, cd_pos = p\<rparr>"
    have "nat p \<in> set [0..<nat (rows g * columns g)]" using p by simp
    then have "(\<lambda>p. \<lparr>cd_label = find_root (data g) (int p), cd_pos = int p\<rparr>) (nat p)
                 \<in> (\<lambda>p. \<lparr>cd_label = find_root (data g) (int p), cd_pos = int p\<rparr>)
                      ` set [0..<nat (rows g * columns g)]"
      by (rule imageI)
    then have "\<lparr>cd_label = find_root (data g) (int (nat p)), cd_pos = int (nat p)\<rparr>
                 \<in> set (map (\<lambda>p. \<lparr>cd_label = find_root (data g) (int p), cd_pos = int p\<rparr>)
                          [0..<nat (rows g * columns g)])"
      by (simp only: set_map)
    then have "?cd \<in> set (labelled_cells g)" using p by (simp add: labelled_cells_def)
    then show "p \<in> cd_pos ` set (labelled_cells g)" by force
  qed
qed

lemma labelled_cells_distinct: "distinct (map cd_pos (labelled_cells g))"
proof -
  have "map cd_pos (map (\<lambda>p. \<lparr>cd_label = find_root (data g) (int p), cd_pos = int p\<rparr>)
          [0..<nat (rows g * columns g)]) = map int [0..<nat (rows g * columns g)]"
    by simp
  moreover have "distinct (map int [0..<nat (rows g * columns g)])"
    by (simp add: distinct_map)
  ultimately show ?thesis
    unfolding labelled_cells_def by (simp only: distinct_map_filter)
qed

lemma close_buffer:
  "set (c_buffer (close g)) = set (labelled_cells g)"
  "sorted (map cd_label (c_buffer (close g)))"
  "distinct (map cd_pos (c_buffer (close g)))"
proof -
  show "set (c_buffer (close g)) = set (labelled_cells g)" by (simp add: close_def)
  show "sorted (map cd_label (c_buffer (close g)))" by (simp add: close_def)
  have "distinct (labelled_cells g)" "inj_on cd_pos (set (labelled_cells g))"
    using labelled_cells_distinct [of g] by (simp_all add: distinct_map)
  then show "distinct (map cd_pos (c_buffer (close g)))"
    by (simp add: close_def distinct_map)
qed

lemma init_reused:
  assumes "rows g = R" "columns g = C" "locate g = GridPosition_new R C"
  shows "init g = init (GridPartitionedSet_new R C)"
  using assms by (cases g) (simp add: init_def GridPartitionedSet_new_def)

lemma labeling_pass_reused:
  assumes "rows g = R" "columns g = C" "locate g = GridPosition_new R C"
  shows "labeling_pass A g = labeling_pass A (GridPartitionedSet_new R C)"
  by (simp add: labeling_pass_def init_reused [OF assms])

text \<open>The clusters that close and next hand out, for a set whose labels agree with \<open>E\<close>.\<close>

lemma clusters_of_labelled:
  assumes lab: "labelled R C (R * C) S E g"
  shows "distinct (concat (all_clusters (close g)))"
    and "set (concat (all_clusters (close g))) = S"
    and "[] \<notin> set (all_clusters (close g))"
    and "\<And>c p. c \<in> set (all_clusters (close g)) \<Longrightarrow> p \<in> set c \<Longrightarrow> set c = {q. (p, q) \<in> E\<^sup>*}"
proof -
  let ?L = "find_root (data g)"
  let ?buf = "c_buffer (close g)"
  let ?cl = "all_clusters (close g)"
  from lab have rc: "rows g = R" "columns g = C"
    and S: "S \<subseteq> {0..<R * C}" and E: "E \<subseteq> S \<times> S"
    and off: "\<forall>p. 0 \<le> p \<and> p < R * C \<and> p \<notin> S \<longrightarrow> ?L p < 0"
    and on: "\<forall>p \<in> S. 0 \<le> ?L p" and ag: "agrees S E ?L"
    by (simp_all add: labelled_def)
  have pos: "cd_pos ` set ?buf = S"
  proof -
    have "cd_pos ` set ?buf = {p. 0 \<le> p \<and> p < R * C \<and> 0 \<le> ?L p}"
      by (simp only: close_buffer labelled_cells_pos rc)
    also have "\<dots> = S" using S off on by fastforce
    finally show ?thesis .
  qed
  have lbl: "\<And>cd. cd \<in> set ?buf \<Longrightarrow> cd_label cd = ?L (cd_pos cd)"
    using labelled_cells_entries(1) [of _ g] by (simp only: close_buffer)
  have cc: "concat ?cl = map cd_pos ?buf" by (simp only: all_clusters_concat)
  show "distinct (concat ?cl)" by (simp only: cc close_buffer)
  show "set (concat ?cl) = S" by (simp only: cc set_map pos)
  show "[] \<notin> set ?cl" by (simp only: all_clusters_nonempty not_False_eq_True)
  show "set c = {q. (p, q) \<in> E\<^sup>*}" if c: "c \<in> set ?cl" and p: "p \<in> set c" for c p
  proof -
    from c obtain l where l: "c = map cd_pos (filter (\<lambda>x. cd_label x = l) ?buf)"
      using all_clusters_runs [OF close_buffer(2), of c g] by auto
    with p obtain x where x: "x \<in> set ?buf" "cd_label x = l" "cd_pos x = p" by auto
    then have lp: "l = ?L p" using lbl by auto
    have pS: "p \<in> S" using x pos by auto
    have "set c = {q \<in> S. ?L q = l}"
    proof (rule set_eqI)
      fix q
      show "q \<in> set c \<longleftrightarrow> q \<in> {q \<in> S. ?L q = l}"
      proof
        assume "q \<in> set c"
        with l obtain y where y: "y \<in> set ?buf" "cd_label y = l" "cd_pos y = q" by auto
        then have "q \<in> S" using pos by auto
        moreover have "?L q = l" using lbl [OF y(1)] y by simp
        ultimately show "q \<in> {q \<in> S. ?L q = l}" by simp
      next
        assume "q \<in> {q \<in> S. ?L q = l}"
        then have q: "q \<in> S" "?L q = l" by simp_all
        then have "q \<in> cd_pos ` set ?buf" by (simp only: pos)
        then obtain y where y: "y \<in> set ?buf" "cd_pos y = q" by blast
        then have "cd_label y = l" using lbl [OF y(1)] q by simp
        with y show "q \<in> set c" using l by auto
      qed
    qed
    also have "\<dots> = {q. (p, q) \<in> E\<^sup>*}"
    proof (rule set_eqI)
      fix q
      show "q \<in> {q \<in> S. ?L q = l} \<longleftrightarrow> q \<in> {q. (p, q) \<in> E\<^sup>*}"
      proof
        assume "q \<in> {q \<in> S. ?L q = l}"
        then have "q \<in> S" "?L p = ?L q" using lp by simp_all
        then show "q \<in> {q. (p, q) \<in> E\<^sup>*}" using ag pS by (simp add: agrees_def)
      next
        assume "q \<in> {q. (p, q) \<in> E\<^sup>*}"
        then have pq: "(p, q) \<in> E\<^sup>*" by simp
        then have qS: "q \<in> S" using E pS by (rule rtrancl_stays)
        then have "?L p = ?L q" using ag pS pq by (simp add: agrees_def)
        with qS lp show "q \<in> {q \<in> S. ?L q = l}" by simp
      qed
    qed
    finally show ?thesis .
  qed
qed

text \<open>The label of a pixel is the least pixel joined to it: the labels do not depend on the
  order of the unions.\<close>

lemma label_in_class:
  assumes lab: "labelled R C K S E g" and p: "p \<in> S"
  shows "find_root (data g) p \<in> S" and "(p, find_root (data g) p) \<in> E\<^sup>*"
    and "\<And>q. (p, q) \<in> E\<^sup>* \<Longrightarrow> find_root (data g) p \<le> q"
proof -
  let ?L = "find_root (data g)"
  from lab have d: "decr (data g)" and S: "S \<subseteq> {0..<K}" and E: "E \<subseteq> S \<times> S"
    and off: "\<forall>p. 0 \<le> p \<and> p < K \<and> p \<notin> S \<longrightarrow> ?L p < 0"
    and on: "\<forall>p \<in> S. 0 \<le> ?L p" and ag: "agrees S E ?L"
    by (simp_all add: labelled_def)
  have nn: "0 \<le> ?L p" using on p by simp
  have le: "?L p \<le> p" using d by (rule find_root_le)
  have "p < K" using S p by auto
  then have lt: "?L p < K" using le by simp
  have idem: "?L (?L p) = ?L p" using d nn by (rule find_root_idem)
  show rS: "?L p \<in> S"
  proof (rule ccontr)
    assume "?L p \<notin> S"
    then have "?L (?L p) < 0" using off nn lt by simp
    then show False using idem nn by simp
  qed
  have "?L p = ?L (?L p) \<longleftrightarrow> (p, ?L p) \<in> E\<^sup>*"
    using ag p rS unfolding agrees_def by blast
  then show "(p, ?L p) \<in> E\<^sup>*" using idem by simp
  show "?L p \<le> q" if "(p, q) \<in> E\<^sup>*" for q
  proof -
    have qS: "q \<in> S" using that E p by (rule rtrancl_stays)
    then have "?L p = ?L q" using ag p that by (simp add: agrees_def)
    moreover have "?L q \<le> q" using d by (rule find_root_le)
    ultimately show ?thesis by simp
  qed
qed

lemma labels_canonical:
  assumes lab: "labelled R C K S E g" and lab': "labelled R C K S E' g'"
    and same: "E\<^sup>* = E'\<^sup>*" and p: "p \<in> S"
  shows "find_root (data g) p = find_root (data g') p"
proof -
  note a = label_in_class [OF lab p]
  note b = label_in_class [OF lab' p]
  have "(p, find_root (data g') p) \<in> E\<^sup>*" using b(2) same by simp
  then have 1: "find_root (data g) p \<le> find_root (data g') p" by (rule a(3))
  have "(p, find_root (data g) p) \<in> E'\<^sup>*" using a(2) same by simp
  then have 2: "find_root (data g') p \<le> find_root (data g) p" by (rule b(3))
  from 1 2 show ?thesis by simp
qed

lemma labelled_cells_canonical:
  assumes lab: "labelled R C (R * C) S E g" and lab': "labelled R C (R * C) S E' g'"
    and same: "E\<^sup>* = E'\<^sup>*"
  shows "labelled_cells g = labelled_cells g'"
proof -
  let ?L = "find_root (data g)" and ?L' = "find_root (data g')"
  from lab have rc: "rows g = R" "columns g = C"
    and off: "\<forall>p. 0 \<le> p \<and> p < R * C \<and> p \<notin> S \<longrightarrow> ?L p < 0"
    by (simp_all add: labelled_def)
  from lab' have rc': "rows g' = R" "columns g' = C"
    and off': "\<forall>p. 0 \<le> p \<and> p < R * C \<and> p \<notin> S \<longrightarrow> ?L' p < 0"
    by (simp_all add: labelled_def)
  let ?f = "\<lambda>p. \<lparr>cd_label = ?L (int p), cd_pos = int p\<rparr>"
  let ?f' = "\<lambda>p. \<lparr>cd_label = ?L' (int p), cd_pos = int p\<rparr>"
  have keep: "filter (\<lambda>p. 0 \<le> ?L (int p)) [0..<nat (R * C)]
            = filter (\<lambda>p. 0 \<le> ?L' (int p)) [0..<nat (R * C)]"
  proof (rule filter_cong [OF refl])
    fix n assume "n \<in> set [0..<nat (R * C)]"
    then have n: "0 \<le> int n" "int n < R * C" by auto
    show "(0 \<le> ?L (int n)) = (0 \<le> ?L' (int n))"
    proof (cases "int n \<in> S")
      case True
      then show ?thesis using labels_canonical [OF lab lab' same] by simp
    next
      case False
      then have "?L (int n) < 0" "?L' (int n) < 0" using off off' n by simp_all
      then show ?thesis by simp
    qed
  qed
  have val: "map ?f (filter (\<lambda>p. 0 \<le> ?L' (int p)) [0..<nat (R * C)])
           = map ?f' (filter (\<lambda>p. 0 \<le> ?L' (int p)) [0..<nat (R * C)])"
  proof (rule map_cong [OF refl])
    fix n assume "n \<in> set (filter (\<lambda>p. 0 \<le> ?L' (int p)) [0..<nat (R * C)])"
    then have n: "0 \<le> int n" "int n < R * C" "0 \<le> ?L' (int n)" by auto
    have "int n \<in> S"
    proof (rule ccontr)
      assume "int n \<notin> S"
      then have "?L' (int n) < 0" using off' n by simp
      with n(3) show False by simp
    qed
    then show "?f n = ?f' n" using labels_canonical [OF lab lab' same] by simp
  qed
  have "labelled_cells g = map ?f (filter (\<lambda>p. 0 \<le> ?L (int p)) [0..<nat (R * C)])"
    by (simp add: labelled_cells_def rc filter_map comp_def)
  also have "\<dots> = map ?f' (filter (\<lambda>p. 0 \<le> ?L' (int p)) [0..<nat (R * C)])"
    by (simp only: keep val)
  also have "\<dots> = labelled_cells g'"
    by (simp add: labelled_cells_def rc' filter_map comp_def)
  finally show ?thesis .
qed

lemma all_clusters_buffer: "c_buffer g = c_buffer g' \<Longrightarrow> all_clusters g = all_clusters g'"
proof (induction "length (c_buffer g)" arbitrary: g g' rule: less_induct)
  case less
  show ?case
  proof (cases "c_buffer g")
    case Nil
    then show ?thesis using less(2) by (simp add: all_clusters_Nil)
  next
    case (Cons cd cds)
    let ?P = "\<lambda>c. cd_label c = cd_label cd"
    have c': "c_buffer g' = cd # cds" using Cons less(2) by simp
    have "length (c_buffer (g\<lparr>c_buffer := dropWhile ?P cds\<rparr>)) < length (c_buffer g)"
      using Cons length_dropWhile_le [of ?P cds] by simp
    then have "all_clusters (g\<lparr>c_buffer := dropWhile ?P cds\<rparr>)
             = all_clusters (g'\<lparr>c_buffer := dropWhile ?P cds\<rparr>)"
      by (rule less(1)) simp
    then show ?thesis by (simp only: all_clusters_Cons [OF Cons] all_clusters_Cons [OF c'])
  qed
qed

lemma clusters_canonical:
  assumes "labelled R C (R * C) S E g" "labelled R C (R * C) S E' g'" "E\<^sup>* = E'\<^sup>*"
  shows "all_clusters (close g) = all_clusters (close g')"
proof (rule all_clusters_buffer)
  show "c_buffer (close g) = c_buffer (close g')"
    by (simp add: close_def labelled_cells_canonical [OF assms])
qed

lemmas pass_eval =
  labeling_pass_def GridPartitionedSet_new_def init_def scan_grid_def scan_row_def
  scan_cell_def merge_def find_grid_def invalidate_def close_def labelled_cells_def
  to_linear_def wrap_int_def next_cluster_def Let_def upt_rec GridPosition_new_def
  find_root.simps compress.simps all_clusters.simps

text \<open>
  Two pixels that touch at a corner only, alone on a grid of 2 rows and 2 columns, come out
  as two clusters of one pixel, on either diagonal.
\<close>

lemma diagonal_pair_two_clusters:
  "labeling_pass (\<lambda>r c. (r, c) = (0, 0) \<or> (r, c) = (1, 1)) (GridPartitionedSet_new 2 2) = [[0], [3]]"
  "labeling_pass (\<lambda>r c. (r, c) = (0, 1) \<or> (r, c) = (1, 0)) (GridPartitionedSet_new 2 2) = [[1], [2]]"
  by (simp_all add: pass_eval)

text \<open>
  The L-shaped triple \<open>(r, c)\<close>, \<open>(r, c + 1)\<close>, \<open>(r + 1, c + 1)\<close> comes out as one cluster
  of three pixels; so does the triple that needs a union of two labels, \<open>(0, 1)\<close>,
  \<open>(1, 0)\<close>, \<open>(1, 1)\<close>.
\<close>

lemma L_triple_one_cluster:
  "labeling_pass (\<lambda>r c. (r, c) = (0, 0) \<or> (r, c) = (0, 1) \<or> (r, c) = (1, 1))
     (GridPartitionedSet_new 2 2) = [[0, 1, 3]]"
  "labeling_pass (\<lambda>r c. (r, c) = (0, 1) \<or> (r, c) = (1, 0) \<or> (r, c) = (1, 1))
     (GridPartitionedSet_new 2 2) = [[1, 2, 3]]"
  by (simp_all add: pass_eval)

lemma distinct_set_single: "distinct xs \<Longrightarrow> set xs = {i} \<Longrightarrow> xs = [i]"
proof (cases xs)
  case Nil
  assume "set xs = {i}" with Nil show ?thesis by simp
next
  case (Cons a ys)
  assume d: "distinct xs" and s: "set xs = {i}"
  from s Cons have a: "a = i" by auto
  from d Cons have "a \<notin> set ys" by simp
  moreover from s Cons have "set ys \<subseteq> {i}" by auto
  ultimately have "ys = []" using a by (cases ys) auto
  then show ?thesis using Cons a by simp
qed

lemma cell_of_position:
  assumes "0 < C" "0 \<le> c" "c < C"
  shows "(k div C = r \<and> k mod C = c) \<longleftrightarrow> k = r * C + (c::int)"
  using assms by auto

lemma cell_neq:
  "k div C \<noteq> k' div C \<Longrightarrow> k \<noteq> (k'::int)"
  "k mod C \<noteq> k' mod C \<Longrightarrow> k \<noteq> (k'::int)"
  by auto

lemma cell_in_grid:
  assumes C: "0 < C" and r: "0 \<le> r" "r < R" and c: "0 \<le> c" "c < (C::int)"
  shows "0 \<le> r * C + c \<and> r * C + c < R * C"
proof -
  have "(r + 1) * C \<le> R * C" using r(2) C by (intro mult_right_mono) simp_all
  then have "r * C + c < R * C" using c(2) by (simp add: algebra_simps)
  moreover have "0 \<le> r * C" using r(1) C by simp
  ultimately show ?thesis using c(1) by simp
qed

lemma clusters_distinct:
  assumes "distinct (concat cl)" "[] \<notin> set cl"
  shows "distinct cl" and "\<And>c. c \<in> set cl \<Longrightarrow> distinct c"
    and "\<And>c d. c \<in> set cl \<Longrightarrow> d \<in> set cl \<Longrightarrow> set c \<inter> set d \<noteq> {} \<Longrightarrow> c = d"
proof -
  have "removeAll [] cl = cl" using assms(2) by simp
  then show "distinct cl" using assms(1) by (simp add: distinct_concat_iff)
  show "\<And>c. c \<in> set cl \<Longrightarrow> distinct c" using assms(1) by (simp add: distinct_concat_iff)
  show "\<And>c d. c \<in> set cl \<Longrightarrow> d \<in> set cl \<Longrightarrow> set c \<inter> set d \<noteq> {} \<Longrightarrow> c = d"
    using assms(1) unfolding distinct_concat_iff by blast
qed

subsection \<open>Any order of the scan\<close>

lemma find_root_upd_other:
  "find_root d p \<noteq> find_root d k \<Longrightarrow> find_root (d(k := v)) p = find_root d p"
proof (induction d p rule: find_root.induct)
  case (1 d p)
  have pk: "p \<noteq> k" using 1(2) by auto
  then have e: "(d(k := v)) p = d p" by simp
  show ?case
  proof (cases "0 \<le> d p \<and> d p < p")
    case True
    then have s: "find_root d p = find_root d (d p)" by (simp add: find_root_step)
    have "find_root (d(k := v)) p = find_root (d(k := v)) (d p)"
      using True e by (simp add: find_root_step)
    also have "\<dots> = find_root d (d p)" using True 1(2) s by (intro 1(1)) simp_all
    finally have "find_root (d(k := v)) p = find_root d (d p)" .
    then show ?thesis by (simp only: s)
  next
    case False
    then have "find_root d p = d p" by (rule find_root_stop)
    moreover have "find_root (d(k := v)) p = d p" using False e by (simp add: find_root_stop)
    ultimately show ?thesis by (simp only:)
  qed
qed

lemma labelled_drop:
  assumes lab: "labelled R C K S E g" and k: "k \<in> S"
    and iso: "k \<notin> Domain E" "k \<notin> Range E" and lin: "to_linear (locate g) r c = k"
  shows "labelled R C K (S - {k}) E (invalidate g r c)"
proof -
  let ?L = "find_root (data g)"
  let ?d' = "(data g)(k := - 1)"
  from lab have d: "decr (data g)" and S: "S \<subseteq> {0..<K}" and E: "E \<subseteq> S \<times> S"
    and rc: "rows g = R" "columns g = C" "locate g = GridPosition_new R C"
    and out: "\<forall>p. K \<le> p \<longrightarrow> ?L p = p"
    and off: "\<forall>p. 0 \<le> p \<and> p < K \<and> p \<notin> S \<longrightarrow> ?L p < 0"
    and on: "\<forall>p \<in> S. 0 \<le> ?L p" and ag: "agrees S E ?L"
    by (simp_all add: labelled_def)
  have data': "data (invalidate g r c) = ?d'" by (simp add: invalidate_def lin)
  have k0: "0 \<le> k" "k < K" using S k by auto
  have Lk: "0 \<le> ?L k" using on k by simp
  have Lk_le: "?L k \<le> k" using d by (rule find_root_le)
  have other: "find_root ?d' p = ?L p" if "p \<noteq> k" for p
  proof (rule find_root_upd_other)
    show "?L p \<noteq> ?L k"
    proof (cases "p \<in> S")
      case True
      show ?thesis
      proof
        assume "?L p = ?L k"
        then have "(p, k) \<in> E\<^sup>*" using ag True k unfolding agrees_def by blast
        then have "p = k" using iso(2) by (rule rtrancl_to_isolated)
        with that show False by simp
      qed
    next
      case False
      show ?thesis
      proof (cases "0 \<le> p \<and> p < K")
        case True
        then have "?L p < 0" using off False by simp
        with Lk show ?thesis by simp
      next
        case False
        show ?thesis
        proof (cases "K \<le> p")
          case True
          then have "?L p = p" using out by simp
          with True k0 Lk_le show ?thesis by simp
        next
          case False
          with \<open>\<not> (0 \<le> p \<and> p < K)\<close> have "p < 0" by simp
          moreover have "?L p \<le> p" using d by (rule find_root_le)
          ultimately show ?thesis using Lk by simp
        qed
      qed
    qed
  qed
  have at: "find_root ?d' k = - 1" by (simp add: find_root_sentinel)
  have d': "decr ?d'" using d k0 by (simp add: decr_upd)
  have 1: "S - {k} \<subseteq> {0..<K}" using S by auto
  have 2: "E \<subseteq> (S - {k}) \<times> (S - {k})" using E iso by auto
  have 3: "\<forall>p. K \<le> p \<longrightarrow> find_root ?d' p = p"
  proof (intro allI impI)
    fix p assume "K \<le> p"
    then have "p \<noteq> k" using k0 by simp
    then show "find_root ?d' p = p" using other out \<open>K \<le> p\<close> by simp
  qed
  have 4: "\<forall>p. 0 \<le> p \<and> p < K \<and> p \<notin> S - {k} \<longrightarrow> find_root ?d' p < 0"
  proof (intro allI impI)
    fix p assume p: "0 \<le> p \<and> p < K \<and> p \<notin> S - {k}"
    show "find_root ?d' p < 0"
    proof (cases "p = k")
      case True
      then show ?thesis using at by simp
    next
      case False
      then have "p \<notin> S" using p by simp
      then have "?L p < 0" using off p by simp
      then show ?thesis using other [OF False] by simp
    qed
  qed
  have 5: "\<forall>p \<in> S - {k}. 0 \<le> find_root ?d' p"
  proof
    fix p assume "p \<in> S - {k}"
    then have "p \<in> S" "p \<noteq> k" by simp_all
    then show "0 \<le> find_root ?d' p" using other on by simp
  qed
  have 6: "agrees (S - {k}) E (find_root ?d')"
    unfolding agrees_def
  proof (intro ballI)
    fix p q assume "p \<in> S - {k}" "q \<in> S - {k}"
    then have pq: "p \<in> S" "p \<noteq> k" "q \<in> S" "q \<noteq> k" by simp_all
    then have "find_root ?d' p = ?L p" "find_root ?d' q = ?L q" using other by simp_all
    moreover have "?L p = ?L q \<longleftrightarrow> (p, q) \<in> E\<^sup>*"
      using ag pq(1,3) unfolding agrees_def by blast
    ultimately show "find_root ?d' p = find_root ?d' q \<longleftrightarrow> (p, q) \<in> E\<^sup>*" by simp
  qed
  have "rows (invalidate g r c) = R" "columns (invalidate g r c) = C"
    "locate (invalidate g r c) = GridPosition_new R C"
    using rc by (simp_all add: invalidate_def)
  then show ?thesis
    unfolding labelled_def data' using d' 1 2 3 4 5 6 by (intro conjI)
qed

lemma labelled_init:
  assumes "rows g = R" "columns g = C" "locate g = GridPosition_new R C"
  shows "labelled R C (R * C) (pending A R C {}) (joined A R C {}) (init g)"
proof -
  have p: "pending A R C {} = {0..<R * C}" by (auto simp: pending_def)
  have j: "joined A R C {} = {}" by (simp add: joined_def)
  have "decr (\<lambda>p. p)" by (simp add: decr_def)
  moreover have r: "\<And>p::int. find_root (\<lambda>p. p) p = p" by (simp add: find_root_self)
  moreover have "agrees {0..<R * C} {} (find_root (\<lambda>p. p))"
    by (simp add: agrees_def r)
  ultimately show ?thesis
    using assms by (simp add: labelled_def p j init_def r)
qed

lemma max_adjacent:
  assumes C: "0 < C" and adj: "adjacent4 C p q" and m: "max p q = k"
  shows "(p = k \<and> ((q = k - 1 \<and> k mod C \<noteq> 0) \<or> q = k - C))
       \<or> (q = k \<and> ((p = k - 1 \<and> k mod C \<noteq> 0) \<or> p = k - C))"
proof -
  have ne: "p \<noteq> q" using adj not_adjacent4_self [of C p] by auto
  show ?thesis
  proof (cases "p < q")
    case True
    then have qk: "q = k" using m by simp
    have "adjacent4 C k p" using adj qk by (simp add: adjacent4_sym)
    moreover have "p < k" using True qk by simp
    ultimately have "(p = k - 1 \<and> k mod C \<noteq> 0) \<or> p = k - C"
      using adjacent4_below [OF C, of p k] by simp
    with qk show ?thesis by simp
  next
    case False
    then have lt: "q < p" using ne by simp
    then have pk: "p = k" using m by simp
    have "adjacent4 C k q" using adj pk by simp
    moreover have "q < k" using lt pk by simp
    ultimately have "(q = k - 1 \<and> k mod C \<noteq> 0) \<or> q = k - C"
      using adjacent4_below [OF C, of q k] by simp
    with pk show ?thesis by simp
  qed
qed

lemma joined_insert:
  "joined A R C (insert k V) =
     joined A R C V \<union> {(p, q). p \<in> active_cells A R C \<and> q \<in> active_cells A R C
                            \<and> adjacent4 C p q \<and> max p q = k}"
  by (auto simp: joined_def)

lemma joined_at:
  assumes C: "0 < C" and k: "k \<in> active_cells A R C"
  shows "{(p, q). p \<in> active_cells A R C \<and> q \<in> active_cells A R C
                  \<and> adjacent4 C p q \<and> max p q = k}
       = (if k mod C \<noteq> 0 \<and> k - 1 \<in> active_cells A R C then {(k, k - 1), (k - 1, k)} else {})
         \<union> (if k - C \<in> active_cells A R C then {(k, k - C), (k - C, k)} else {})"
proof (rule set_eqI, clarify)
  fix p q
  let ?act = "active_cells A R C"
  let ?L = "k mod C \<noteq> 0 \<and> k - 1 \<in> ?act"
  let ?U = "k - C \<in> ?act"
  have al: "adjacent4 C k (k - 1)" if "k mod C \<noteq> 0"
    using adjacent4_below [OF C, of "k - 1" k] that by simp
  have au: "adjacent4 C k (k - C)"
    using adjacent4_below [OF C, of "k - C" k] C by simp
  have ml: "max k (k - 1) = k" "max (k - 1) k = k" by simp_all
  have mu: "max k (k - C) = k" "max (k - C) k = k" using C by simp_all
  have rhs: "(p, q) \<in> (if ?L then {(k, k - 1), (k - 1, k)} else {})
                      \<union> (if ?U then {(k, k - C), (k - C, k)} else {})
        \<longleftrightarrow> (?L \<and> (p = k \<and> q = k - 1 \<or> p = k - 1 \<and> q = k))
          \<or> (?U \<and> (p = k \<and> q = k - C \<or> p = k - C \<and> q = k))"
    by auto
  show "(p, q) \<in> {(p, q). p \<in> ?act \<and> q \<in> ?act \<and> adjacent4 C p q \<and> max p q = k}
      \<longleftrightarrow> (p, q) \<in> (if ?L then {(k, k - 1), (k - 1, k)} else {})
                      \<union> (if ?U then {(k, k - C), (k - C, k)} else {})"
    unfolding rhs
  proof
    assume "(p, q) \<in> {(p, q). p \<in> ?act \<and> q \<in> ?act \<and> adjacent4 C p q \<and> max p q = k}"
    then have a: "p \<in> ?act" "q \<in> ?act" "adjacent4 C p q" "max p q = k" by simp_all
    from max_adjacent [OF C a(3) a(4)] a(1) a(2)
    show "(?L \<and> (p = k \<and> q = k - 1 \<or> p = k - 1 \<and> q = k))
          \<or> (?U \<and> (p = k \<and> q = k - C \<or> p = k - C \<and> q = k))"
      by (elim disjE conjE) simp_all
  next
    assume "(?L \<and> (p = k \<and> q = k - 1 \<or> p = k - 1 \<and> q = k))
          \<or> (?U \<and> (p = k \<and> q = k - C \<or> p = k - C \<and> q = k))"
    then consider (l1) "?L" "p = k" "q = k - 1" | (l2) "?L" "p = k - 1" "q = k"
      | (u1) "?U" "p = k" "q = k - C" | (u2) "?U" "p = k - C" "q = k"
      by (elim disjE conjE) blast+
    then show "(p, q) \<in> {(p, q). p \<in> ?act \<and> q \<in> ?act \<and> adjacent4 C p q \<and> max p q = k}"
    proof cases
      case l1
      then show ?thesis using k al ml by simp
    next
      case l2
      then show ?thesis using k al ml by (simp add: adjacent4_sym [of C "k - 1" k])
    next
      case u1
      then show ?thesis using k au mu by simp
    next
      case u2
      then show ?thesis using k au mu by (simp add: adjacent4_sym [of C "k - C" k])
    qed
  qed
qed

lemma scan_cell_any:
  assumes lab: "labelled R C (R * C) (pending A R C V) (joined A R C V) g"
    and C: "0 < C" and r: "0 \<le> r" "r < R" and c: "0 \<le> c" "c < C"
    and k: "k = r * C + c" and new: "k \<notin> V" and fit: "R * C \<le> INT_MAX"
  shows "labelled R C (R * C) (pending A R C (insert k V)) (joined A R C (insert k V))
           (scan_cell A g r c)"
proof -
  let ?N = "R * C"
  let ?S = "pending A R C V"
  let ?E = "joined A R C V"
  let ?act = "active_cells A R C"
  from lab have loc: "locate g = GridPosition_new R C" by (simp add: labelled_def)
  have kin: "0 \<le> k" "k < ?N" using cell_in_grid [OF C r c] k by simp_all
  have dm: "k div C = r" "k mod C = c" using div_mod_cell [OF C c, of r] k by simp_all
  have lk: "to_linear (GridPosition_new R C) r c = k"
    using to_linear_in_grid [OF C r c fit] k by simp
  have kS: "k \<in> ?S" using kin new by (simp add: pending_def)
  show ?thesis
  proof (cases "A r c")
    case False
    then have kact: "k \<notin> ?act" using dm by (simp add: active_cells_def)
    have sc: "scan_cell A g r c = invalidate g r c" using False by (simp add: scan_cell_def)
    have iso: "k \<notin> Domain ?E" "k \<notin> Range ?E" using kact by (auto simp: joined_def)
    have "labelled R C ?N (?S - {k}) ?E (invalidate g r c)"
      using lab kS iso by (rule labelled_drop) (simp add: loc lk)
    moreover have "pending A R C (insert k V) = ?S - {k}"
      using False dm by (auto simp: pending_def)
    moreover have "joined A R C (insert k V) = ?E"
    proof -
      have "{(p, q). p \<in> ?act \<and> q \<in> ?act \<and> adjacent4 C p q \<and> max p q = k} = {}"
        using kact by (auto simp: max_def split: if_splits)
      then show ?thesis by (simp only: joined_insert Un_empty_right)
    qed
    ultimately show ?thesis by (simp only: sc)
  next
    case act: True
    then have kact: "k \<in> ?act" using dm kin by (simp add: active_cells_def)
    have S': "pending A R C (insert k V) = ?S" using act dm by (auto simp: pending_def)
    let ?lc = "0 < c \<and> A r (c - 1)"
    let ?uc = "0 < r \<and> A (r - 1) c"
    let ?g1 = "if ?lc then merge g r c r (c - 1) else g"
    let ?g2 = "if ?uc then merge ?g1 r c (r - 1) c else ?g1"
    let ?E1 = "?E \<union> (if k mod C \<noteq> 0 \<and> k - 1 \<in> ?act then {(k, k - 1), (k - 1, k)} else {})"
    let ?E2 = "?E1 \<union> (if k - C \<in> ?act then {(k, k - C), (k - C, k)} else {})"
    have actS: "\<And>p. p \<in> ?act \<Longrightarrow> p \<in> ?S" by (simp add: active_cells_def pending_def)
    have lc: "?lc \<longleftrightarrow> k mod C \<noteq> 0 \<and> k - 1 \<in> ?act"
    proof (cases "0 < c")
      case True
      then have "k mod C \<noteq> 0" using dm by simp
      from left_cell [OF C this] have "(k - 1) div C = r" "(k - 1) mod C = c - 1"
        using dm by simp_all
      moreover have "0 \<le> r * C" using r(1) C by simp
      then have "0 \<le> k - 1" using k True by simp
      ultimately show ?thesis using True dm kin by (simp add: active_cells_def)
    next
      case False
      then have "c = 0" using c(1) by simp
      then show ?thesis using dm by simp
    qed
    have uc: "?uc \<longleftrightarrow> k - C \<in> ?act"
    proof -
      from up_cell [OF C, of k] have d: "(k - C) div C = r - 1" "(k - C) mod C = c"
        using dm by simp_all
      have e: "k - C = (r - 1) * C + c" using k by (simp add: algebra_simps)
      have "0 \<le> k - C \<longleftrightarrow> 0 < r"
      proof
        assume "0 \<le> k - C"
        show "0 < r"
        proof (rule ccontr)
          assume "\<not> 0 < r"
          then have "r = 0" using r(1) by simp
          then have "k - C = c - C" using k by simp
          with c(2) \<open>0 \<le> k - C\<close> show False by simp
        qed
      next
        assume "0 < r"
        then have "0 \<le> (r - 1) * C" using C by simp
        then show "0 \<le> k - C" using e c(1) by simp
      qed
      moreover have "k - C < ?N" using kin C by simp
      ultimately show ?thesis using d by (simp add: active_cells_def)
    qed
    have l1: "labelled R C ?N ?S ?E1 ?g1"
    proof (cases ?lc)
      case True
      then have b: "k - 1 \<in> ?S" using lc actS by simp
      have "to_linear (GridPosition_new R C) r (c - 1) = r * C + (c - 1)"
        using True c(2) by (intro to_linear_in_grid [OF C r _ _ fit]) simp_all
      then have lb: "to_linear (GridPosition_new R C) r (c - 1) = k - 1" using k by simp
      have m: "labelled R C ?N ?S (?E \<union> {(k, k - 1), (k - 1, k)}) (merge g r c r (c - 1))"
        using lab kS b lk lb by (rule labelled_merge)
      have g1: "?g1 = merge g r c r (c - 1)" using True by simp
      have E1: "?E1 = ?E \<union> {(k, k - 1), (k - 1, k)}" using True lc by simp
      show ?thesis using m by (simp only: g1 E1)
    next
      case False
      have g1: "?g1 = g" using False by (simp only: if_False)
      have E1: "?E1 = ?E" using False by (simp only: lc [symmetric] if_False Un_empty_right)
      show ?thesis using lab by (simp only: g1 E1)
    qed
    have l2: "labelled R C ?N ?S ?E2 ?g2"
    proof (cases ?uc)
      case True
      then have b: "k - C \<in> ?S" using uc actS by simp
      have "to_linear (GridPosition_new R C) (r - 1) c = (r - 1) * C + c"
        using True r(2) by (intro to_linear_in_grid [OF C _ _ c fit]) simp_all
      then have lb: "to_linear (GridPosition_new R C) (r - 1) c = k - C"
        using k by (simp add: algebra_simps)
      have m: "labelled R C ?N ?S (?E1 \<union> {(k, k - C), (k - C, k)}) (merge ?g1 r c (r - 1) c)"
        using l1 kS b lk lb by (rule labelled_merge)
      have g2: "?g2 = merge ?g1 r c (r - 1) c" using True by (simp only: simp_thms if_True)
      have E2: "?E2 = ?E1 \<union> {(k, k - C), (k - C, k)}"
        using True by (simp only: uc [symmetric] simp_thms if_True)
      show ?thesis using m by (simp only: g2 E2)
    next
      case False
      have g2: "?g2 = ?g1" using False by (simp only: if_False)
      have E2: "?E2 = ?E1" using False by (simp only: uc [symmetric] if_False Un_empty_right)
      show ?thesis using l1 by (simp only: g2 E2)
    qed
    have sc: "scan_cell A g r c = ?g2" using act by (simp add: scan_cell_def Let_def)
    have E': "joined A R C (insert k V) = ?E2"
      by (simp only: joined_insert joined_at [OF C kact] Un_assoc)
    show ?thesis using l2 by (simp only: sc S' E')
  qed
qed

lemma scan_cells_any:
  assumes C: "0 < C" and fit: "R * C \<le> INT_MAX"
  shows "labelled R C (R * C) (pending A R C V) (joined A R C V) g \<Longrightarrow>
         distinct cells \<Longrightarrow>
         \<forall>rc \<in> set cells. 0 \<le> fst rc \<and> fst rc < R \<and> 0 \<le> snd rc \<and> snd rc < C
                           \<and> fst rc * C + snd rc \<notin> V \<Longrightarrow>
         labelled R C (R * C) (pending A R C (V \<union> (\<lambda>rc. fst rc * C + snd rc) ` set cells))
           (joined A R C (V \<union> (\<lambda>rc. fst rc * C + snd rc) ` set cells))
           (scan_cells A g cells)"
proof (induction cells arbitrary: g V)
  case Nil
  then show ?case by (simp add: scan_cells_def)
next
  case (Cons rc cells)
  let ?k = "fst rc * C + snd rc"
  have rc: "0 \<le> fst rc" "fst rc < R" "0 \<le> snd rc" "snd rc < C" "?k \<notin> V"
    using Cons.prems(3) by simp_all
  have step: "labelled R C (R * C) (pending A R C (insert ?k V)) (joined A R C (insert ?k V))
                (scan_cell A g (fst rc) (snd rc))"
    using Cons.prems(1) C rc(1,2,3,4) refl rc(5) fit by (rule scan_cell_any)
  have rest: "\<forall>x \<in> set cells. 0 \<le> fst x \<and> fst x < R \<and> 0 \<le> snd x \<and> snd x < C
                \<and> fst x * C + snd x \<notin> insert ?k V"
  proof
    fix x assume x: "x \<in> set cells"
    then have b: "0 \<le> fst x \<and> fst x < R \<and> 0 \<le> snd x \<and> snd x < C \<and> fst x * C + snd x \<notin> V"
      using Cons.prems(3) by simp
    have "x \<noteq> rc" using x Cons.prems(2) by auto
    have "fst x * C + snd x \<noteq> ?k"
    proof
      assume e: "fst x * C + snd x = ?k"
      have "(fst x * C + snd x) div C = fst x" "(fst x * C + snd x) mod C = snd x"
        using div_mod_cell [OF C, of "snd x" "fst x"] b by simp_all
      moreover have "?k div C = fst rc" "?k mod C = snd rc"
        using div_mod_cell [OF C rc(3,4), of "fst rc"] by simp_all
      ultimately have "fst x = fst rc" "snd x = snd rc" using e by simp_all
      then have "x = rc" by (simp add: prod_eq_iff)
      with \<open>x \<noteq> rc\<close> show False by simp
    qed
    with b show "0 \<le> fst x \<and> fst x < R \<and> 0 \<le> snd x \<and> snd x < C
                \<and> fst x * C + snd x \<notin> insert ?k V" by simp
  qed
  have d: "distinct cells" using Cons.prems(2) by simp
  have "labelled R C (R * C)
          (pending A R C (insert ?k V \<union> (\<lambda>rc. fst rc * C + snd rc) ` set cells))
          (joined A R C (insert ?k V \<union> (\<lambda>rc. fst rc * C + snd rc) ` set cells))
          (scan_cells A (scan_cell A g (fst rc) (snd rc)) cells)"
    using step d rest by (rule Cons.IH)
  moreover have "insert ?k V \<union> (\<lambda>rc. fst rc * C + snd rc) ` set cells
               = V \<union> (\<lambda>rc. fst rc * C + snd rc) ` set (rc # cells)" by auto
  moreover have "scan_cells A (scan_cell A g (fst rc) (snd rc)) cells = scan_cells A g (rc # cells)"
    by (simp add: scan_cells_def)
  ultimately show ?case by (simp only:)
qed

lemma scan_order_covers:
  assumes C: "0 < C" and so: "scan_order R C cells"
  shows "(\<lambda>rc. fst rc * C + snd rc) ` set cells = {0..<R * C}"
proof -
  let ?lin = "\<lambda>rc :: int \<times> int. fst rc * C + snd rc"
  from so have d: "distinct cells" and len: "length cells = nat (R * C)"
    and grid: "\<forall>rc \<in> set cells. 0 \<le> fst rc \<and> fst rc < R \<and> 0 \<le> snd rc \<and> snd rc < C"
    by (simp_all add: scan_order_def)
  have sub: "?lin ` set cells \<subseteq> {0..<R * C}"
  proof
    fix k assume "k \<in> ?lin ` set cells"
    then obtain rc where rc: "rc \<in> set cells" "k = ?lin rc" by auto
    then have "0 \<le> fst rc" "fst rc < R" "0 \<le> snd rc" "snd rc < C" using grid by simp_all
    from cell_in_grid [OF C this] rc(2) show "k \<in> {0..<R * C}" by simp
  qed
  have inj: "inj_on ?lin (set cells)"
  proof (rule inj_onI)
    fix x y assume x: "x \<in> set cells" and y: "y \<in> set cells" and e: "?lin x = ?lin y"
    have "(?lin x) div C = fst x" "(?lin x) mod C = snd x"
      using div_mod_cell [OF C, of "snd x" "fst x"] grid x by simp_all
    moreover have "(?lin y) div C = fst y" "(?lin y) mod C = snd y"
      using div_mod_cell [OF C, of "snd y" "fst y"] grid y by simp_all
    ultimately have "fst x = fst y" "snd x = snd y" using e by simp_all
    then show "x = y" by (simp add: prod_eq_iff)
  qed
  have "card (?lin ` set cells) = card (set cells)" using inj by (rule card_image)
  also have "\<dots> = length cells" using d by (rule distinct_card)
  also have "\<dots> = card {0..<R * C}" using len by simp
  finally have "card (?lin ` set cells) = card {0..<R * C}" .
  with sub show ?thesis by (intro card_subset_eq) simp_all
qed

lemma pending_all: "pending A R C {0..<R * C} = seen A C (R * C)"
  by (auto simp: pending_def seen_def)

lemma joined_all: "joined A R C {0..<R * C} = edges A C (R * C)"
  by (auto simp: joined_def edges_def active_cells_seen seen_def)

lemma scanned_in_order:
  assumes C: "0 < C" and fit: "R * C \<le> INT_MAX"
    and g: "rows g = R" "columns g = C" "locate g = GridPosition_new R C"
    and so: "scan_order R C cells"
  shows "labelled R C (R * C) (seen A C (R * C)) (edges A C (R * C)) (scan_cells A (init g) cells)"
proof -
  let ?lin = "\<lambda>rc :: int \<times> int. fst rc * C + snd rc"
  from so have d: "distinct cells"
    and grid: "\<forall>rc \<in> set cells. 0 \<le> fst rc \<and> fst rc < R \<and> 0 \<le> snd rc \<and> snd rc < C"
    by (simp_all add: scan_order_def)
  have start: "labelled R C (R * C) (pending A R C {}) (joined A R C {}) (init g)"
    using g by (rule labelled_init)
  have "labelled R C (R * C) (pending A R C ({} \<union> ?lin ` set cells))
          (joined A R C ({} \<union> ?lin ` set cells)) (scan_cells A (init g) cells)"
    using C fit start d by (rule scan_cells_any) (simp add: grid)
  then show ?thesis
    by (simp only: Un_empty_left scan_order_covers [OF C so] pending_all joined_all)
qed

lemma pass_in_order_eq:
  assumes R: "0 < R" and C: "0 < C" and fit: "R * C \<le> INT_MAX"
    and g: "rows g = R" "columns g = C" "locate g = GridPosition_new R C"
    and so: "scan_order R C cells"
  shows "pass_in_order A g cells = labeling_pass A g"
proof -
  have a: "labelled R C (R * C) (seen A C (R * C)) (edges A C (R * C)) (scan_cells A (init g) cells)"
    using C fit g so by (rule scanned_in_order)
  have "labelled R C (R * C) (seen A C (R * C)) (edges A C (R * C))
          (scan_grid A (init (GridPartitionedSet_new R C)))"
    using C R fit by (rule scanned_labelled)
  then have b: "labelled R C (R * C) (seen A C (R * C)) (edges A C (R * C)) (scan_grid A (init g))"
    by (simp only: init_reused [OF g])
  show ?thesis
    unfolding pass_in_order_def labeling_pass_def using a b refl by (rule clusters_canonical)
qed

lemma labeling_pass_parts:
  assumes R: "0 < R" and C: "0 < C" and fit: "R * C \<le> INT_MAX"
    and g: "rows g = R" "columns g = C" "locate g = GridPosition_new R C"
  shows "distinct (concat (labeling_pass A g))
       \<and> set (concat (labeling_pass A g)) = active_cells A R C
       \<and> [] \<notin> set (labeling_pass A g)
       \<and> (\<forall>c \<in> set (labeling_pass A g). \<forall>p \<in> set c. set c = {q. (p, q) \<in> connected4 A R C})"
proof -
  have "labelled R C (R * C) (seen A C (R * C)) (edges A C (R * C))
          (scan_grid A (init (GridPartitionedSet_new R C)))"
    using C R fit by (rule scanned_labelled)
  then have lab: "labelled R C (R * C) (seen A C (R * C)) (edges A C (R * C)) (scan_grid A (init g))"
    by (simp only: init_reused [OF g])
  note c = clusters_of_labelled [OF lab]
  show ?thesis
    unfolding labeling_pass_def active_cells_seen connected4_edges
    using c(1) c(2) c(3) c(4) by blast
qed

text \<open>What the partition into connected components gives for two and for three pixels.\<close>

lemma components_pair:
  assumes P: "distinct (concat cl) \<and> set (concat cl) = active_cells A R C \<and> [] \<notin> set cl
       \<and> (\<forall>c \<in> set cl. \<forall>p \<in> set c. set c = {q. (p, q) \<in> connected4 A R C})"
    and act: "active_cells A R C = {p, q}" and neq: "p \<noteq> q" and noadj: "\<not> adjacent4 C p q"
  shows "set cl = {[p], [q]} \<and> length cl = 2"
proof -
  have na: "\<not> adjacent4 C q p" "\<not> adjacent4 C p p" "\<not> adjacent4 C q q"
    using noadj by (simp_all add: adjacent4_sym [of C q p] not_adjacent4_self)
  have E: "{(x, y). x \<in> active_cells A R C \<and> y \<in> active_cells A R C \<and> adjacent4 C x y} = {}"
    unfolding act using noadj na by auto
  have conn: "connected4 A R C = Id" unfolding connected4_def E by simp
  have single: "\<And>cs. cs \<in> set cl \<Longrightarrow> cs = [p] \<or> cs = [q]"
  proof -
    fix cs assume cs: "cs \<in> set cl"
    then have "cs \<noteq> []" using P by auto
    then obtain x where x: "x \<in> set cs" by (cases cs) auto
    then have "set cs = {y. (x, y) \<in> connected4 A R C}" using P cs by blast
    then have s: "set cs = {x}" by (simp add: conn)
    have "distinct cs" using clusters_distinct(2) [of cl cs] P cs by blast
    then have e: "cs = [x]" using s by (rule distinct_set_single)
    have "x \<in> set (concat cl)" using x cs by auto
    then have "x = p \<or> x = q" using P act by auto
    with e show "cs = [p] \<or> cs = [q]" by auto
  qed
  have has: "\<And>x. x = p \<or> x = q \<Longrightarrow> [x] \<in> set cl"
  proof -
    fix x assume "x = p \<or> x = q"
    then have "x \<in> set (concat cl)" using P act by auto
    then obtain cs where cs: "cs \<in> set cl" "x \<in> set cs" by auto
    from single [OF cs(1)] cs(2) have "cs = [x]" by auto
    with cs(1) show "[x] \<in> set cl" by simp
  qed
  have set_eq: "set cl = {[p], [q]}"
  proof
    show "set cl \<subseteq> {[p], [q]}" using single by auto
    show "{[p], [q]} \<subseteq> set cl" using has [of p] has [of q] by simp
  qed
  have "distinct cl" using clusters_distinct(1) [of cl] P by blast
  then have "length cl = card (set cl)" by (simp add: distinct_card)
  also have "\<dots> = 2" using neq by (simp add: set_eq)
  finally show ?thesis using set_eq by simp
qed

lemma components_triple:
  assumes P: "distinct (concat cl) \<and> set (concat cl) = active_cells A R C \<and> [] \<notin> set cl
       \<and> (\<forall>c \<in> set cl. \<forall>p \<in> set c. set c = {q. (p, q) \<in> connected4 A R C})"
    and act: "active_cells A R C = {p1, p2, p3}"
    and neq: "p1 \<noteq> p2" "p2 \<noteq> p3" "p1 \<noteq> p3"
    and adj: "adjacent4 C p1 p2" "adjacent4 C p2 p3"
  shows "\<exists>cs. cl = [cs] \<and> set cs = {p1, p2, p3} \<and> length cs = 3"
proof -
  let ?E = "{(x, y). x \<in> active_cells A R C \<and> y \<in> active_cells A R C \<and> adjacent4 C x y}"
  have e12: "(p1, p2) \<in> ?E" "(p2, p1) \<in> ?E" "(p2, p3) \<in> ?E" "(p3, p2) \<in> ?E"
    using adj adjacent4_sym [of C] by (simp_all add: act)
  have sub: "?E \<subseteq> active_cells A R C \<times> active_cells A R C" by auto
  have reach: "\<And>x y. x \<in> active_cells A R C \<Longrightarrow> y \<in> active_cells A R C \<Longrightarrow> (x, y) \<in> ?E\<^sup>*"
  proof -
    fix x y assume "x \<in> active_cells A R C" "y \<in> active_cells A R C"
    then have x: "x = p1 \<or> x = p2 \<or> x = p3" and y: "y = p1 \<or> y = p2 \<or> y = p3"
      unfolding act by auto
    have f1: "(p1, p2) \<in> ?E\<^sup>*" using e12(1) by (rule r_into_rtrancl)
    have f2: "(p2, p2) \<in> ?E\<^sup>*" by (rule rtrancl.rtrancl_refl)
    have f3: "(p3, p2) \<in> ?E\<^sup>*" using e12(4) by (rule r_into_rtrancl)
    have b1: "(p2, p1) \<in> ?E\<^sup>*" using e12(2) by (rule r_into_rtrancl)
    have b3: "(p2, p3) \<in> ?E\<^sup>*" using e12(3) by (rule r_into_rtrancl)
    from x have to2: "(x, p2) \<in> ?E\<^sup>*"
    proof (elim disjE)
      assume "x = p1" with f1 show ?thesis by (simp only:)
    next
      assume "x = p2" with f2 show ?thesis by (simp only:)
    next
      assume "x = p3" with f3 show ?thesis by (simp only:)
    qed
    from y have from2: "(p2, y) \<in> ?E\<^sup>*"
    proof (elim disjE)
      assume "y = p1" with b1 show ?thesis by (simp only:)
    next
      assume "y = p2" with f2 show ?thesis by (simp only:)
    next
      assume "y = p3" with b3 show ?thesis by (simp only:)
    qed
    from to2 from2 show "(x, y) \<in> ?E\<^sup>*" by (rule rtrancl_trans)
  qed
  have cls: "\<And>x. x \<in> active_cells A R C \<Longrightarrow> {y. (x, y) \<in> connected4 A R C} = active_cells A R C"
  proof -
    fix x assume x: "x \<in> active_cells A R C"
    show "{y. (x, y) \<in> connected4 A R C} = active_cells A R C"
    proof (rule set_eqI)
      fix y
      show "y \<in> {y. (x, y) \<in> connected4 A R C} \<longleftrightarrow> y \<in> active_cells A R C"
      proof
        assume "y \<in> {y. (x, y) \<in> connected4 A R C}"
        then have "(x, y) \<in> ?E\<^sup>*" by (simp add: connected4_def)
        then show "y \<in> active_cells A R C" using sub x by (rule rtrancl_stays)
      next
        assume "y \<in> active_cells A R C"
        then have "(x, y) \<in> ?E\<^sup>*" using x by (intro reach)
        then show "y \<in> {y. (x, y) \<in> connected4 A R C}" by (simp add: connected4_def)
      qed
    qed
  qed
  have full: "\<And>cs. cs \<in> set cl \<Longrightarrow> set cs = active_cells A R C \<and> cs \<noteq> []"
  proof -
    fix cs assume cs: "cs \<in> set cl"
    then have ne: "cs \<noteq> []" using P by auto
    then obtain x where x: "x \<in> set cs" by (cases cs) auto
    then have "x \<in> set (concat cl)" using cs by auto
    then have xa: "x \<in> active_cells A R C" by (simp only: P [THEN conjunct2, THEN conjunct1])
    have "set cs = {y. (x, y) \<in> connected4 A R C}" using P cs x by blast
    with cls [OF xa] ne show "set cs = active_cells A R C \<and> cs \<noteq> []" by simp
  qed
  have "set (concat cl) \<noteq> {}" using P act by simp
  then have "cl \<noteq> []" by auto
  then obtain cs rest where cl: "cl = cs # rest" by (cases cl) auto
  have dist: "distinct cl" using clusters_distinct(1) [of cl] P by blast
  have same: "\<And>d. d \<in> set cl \<Longrightarrow> d = cs"
  proof -
    fix d assume d: "d \<in> set cl"
    have csin: "cs \<in> set cl" by (simp add: cl)
    have "set d = set cs" using full [OF d] full [OF csin] by simp
    moreover have "set d \<noteq> {}" using full [OF d, THEN conjunct2] by simp
    ultimately have "set d \<inter> set cs \<noteq> {}" by simp
    from clusters_distinct(3) [of cl d cs] P d csin this show "d = cs" by blast
  qed
  have "rest = []"
  proof (cases rest)
    case Nil
    then show ?thesis .
  next
    case (Cons d ds)
    then have "d \<in> set cl" by (simp add: cl)
    then have "d = cs" by (rule same)
    then have False using dist Cons by (simp add: cl)
    then show ?thesis ..
  qed
  then have one: "cl = [cs]" by (simp add: cl)
  have csin: "cs \<in> set cl" by (simp add: cl)
  have s: "set cs = {p1, p2, p3}" using full [OF csin] act by simp
  have "distinct cs" using clusters_distinct(2) [of cl cs] P csin by blast
  then have "length cs = card (set cs)" by (simp add: distinct_card)
  also have "\<dots> = 3" using neq by (simp add: s)
  finally have "length cs = 3" .
  with one s show ?thesis by blast
qed

text \<open>
  C3: on a grid of \<open>R\<close> rows and \<open>C\<close> columns whose cells fit the range of int, for
  every GridPartitionedSet of that grid, whatever an earlier pass has left in it, and for
  every set of active pixels: every pass that visits each cell once yields the clusters of
  the row-major pass, whatever the order of the cells; these clusters are the connected
  components of the active pixels under 4-connectivity (every active pixel is in exactly one
  cluster, no cluster is empty, and a cluster consists of the pixels connected to any one of
  its members); two active pixels that touch at a corner only, alone on the grid, come out
  as two clusters of one pixel; and the L-shaped triple \<open>(r, c)\<close>, \<open>(r, c + 1)\<close>,
  \<open>(r + 1, c + 1)\<close>, alone on the grid, comes out as one cluster of three pixels.
\<close>

theorem labeling_pass_components:
  assumes R: "0 < R" and C: "0 < C" and fit: "R * C \<le> INT_MAX"
    and g: "rows g = R" "columns g = C" "locate g = GridPosition_new R C"
    and so: "scan_order R C cells"
  shows "pass_in_order A g cells = labeling_pass A g
       \<and> distinct (concat (labeling_pass A g))
       \<and> set (concat (labeling_pass A g)) = active_cells A R C
       \<and> [] \<notin> set (labeling_pass A g)
       \<and> (\<forall>c \<in> set (labeling_pass A g). \<forall>p \<in> set c. set c = {q. (p, q) \<in> connected4 A R C})
       \<and> (\<forall>p q. active_cells A R C = {p, q}
                  \<and> \<bar>p div C - q div C\<bar> = 1 \<and> \<bar>p mod C - q mod C\<bar> = 1
             \<longrightarrow> set (labeling_pass A g) = {[p], [q]} \<and> length (labeling_pass A g) = 2)
       \<and> (\<forall>r c. 0 \<le> r \<and> r + 1 < R \<and> 0 \<le> c \<and> c + 1 < C
                  \<and> active_cells A R C = {r * C + c, r * C + (c + 1), (r + 1) * C + (c + 1)}
             \<longrightarrow> (\<exists>cs. labeling_pass A g = [cs]
                    \<and> set cs = {r * C + c, r * C + (c + 1), (r + 1) * C + (c + 1)}
                    \<and> length cs = 3))"
proof -
  note P = labeling_pass_parts [OF R C fit g, of A]
  have 1: "pass_in_order A g cells = labeling_pass A g"
    using R C fit g so by (rule pass_in_order_eq)
  have 2: "set (labeling_pass A g) = {[p], [q]} \<and> length (labeling_pass A g) = 2"
    if h: "active_cells A R C = {p, q}
           \<and> \<bar>p div C - q div C\<bar> = 1 \<and> \<bar>p mod C - q mod C\<bar> = 1" for p q
  proof -
    from h have d: "p div C \<noteq> q div C" "p mod C \<noteq> q mod C" by auto
    from d(1) have "p \<noteq> q" by (rule cell_neq(1))
    moreover have "\<not> adjacent4 C p q" using d by (simp add: adjacent4_def)
    ultimately show ?thesis using P h by (intro components_pair [where A = A and R = R]) simp_all
  qed
  have 3: "\<exists>cs. labeling_pass A g = [cs]
              \<and> set cs = {r * C + c, r * C + (c + 1), (r + 1) * C + (c + 1)} \<and> length cs = 3"
    if h: "0 \<le> r \<and> r + 1 < R \<and> 0 \<le> c \<and> c + 1 < C
           \<and> active_cells A R C = {r * C + c, r * C + (c + 1), (r + 1) * C + (c + 1)}" for r c
  proof -
    let ?p1 = "r * C + c" and ?p2 = "r * C + (c + 1)" and ?p3 = "(r + 1) * C + (c + 1)"
    from h have c: "0 \<le> c" "c + 1 < C" by simp_all
    have c1: "0 \<le> c + 1" "c < C" using c by simp_all
    have d1: "?p1 div C = r" "?p1 mod C = c"
      using div_mod_cell [OF C c(1) c1(2), of r] by simp_all
    have d2: "?p2 div C = r" "?p2 mod C = c + 1"
      using div_mod_cell [OF C c1(1) c(2), of r] by simp_all
    have d3: "?p3 div C = r + 1" "?p3 mod C = c + 1"
      using div_mod_cell [OF C c1(1) c(2), of "r + 1"] by simp_all
    have n: "?p1 mod C \<noteq> ?p2 mod C" "?p2 div C \<noteq> ?p3 div C" "?p1 div C \<noteq> ?p3 div C"
      by (simp_all only: d1 d2 d3)
    have neq: "?p1 \<noteq> ?p2" "?p2 \<noteq> ?p3" "?p1 \<noteq> ?p3"
      using n(1) apply (rule cell_neq(2))
      using n(2) apply (rule cell_neq(1))
      using n(3) by (rule cell_neq(1))
    have adj: "adjacent4 C ?p1 ?p2" "adjacent4 C ?p2 ?p3"
      unfolding adjacent4_def d1 d2 d3 by simp_all
    have act: "active_cells A R C = {?p1, ?p2, ?p3}" using h by simp
    show ?thesis using P act neq adj by (rule components_triple)
  qed
  from 1 P 2 3 show ?thesis by blast
qed

theorem labeling_pass_components_witness:
  "pass_in_order (\<lambda>r c. r = 0 \<and> c = 0 \<or> r = 0 \<and> c = 1 \<or> r = 1 \<and> c = 1)
     \<lparr>rows = 2, columns = 2, locate = GridPosition_new 2 2, data = (\<lambda>p. - 1),
      c_buffer = [\<lparr>cd_label = 5, cd_pos = 5\<rparr>]\<rparr>
     [(1, 1), (0, 1), (1, 0), (0, 0)] = [[0, 1, 3]]
   \<and> active_cells (\<lambda>r c. r = 0 \<and> c = 0 \<or> r = 0 \<and> c = 1 \<or> r = 1 \<and> c = 1) 2 2 = {0, 1, 3}
   \<and> {q. (0, q) \<in> connected4 (\<lambda>r c. r = 0 \<and> c = 0 \<or> r = 0 \<and> c = 1 \<or> r = 1 \<and> c = 1) 2 2}
       = {0, 1, 3}
   \<and> (\<exists>cs. labeling_pass (\<lambda>r c. r = 0 \<and> c = 0 \<or> r = 0 \<and> c = 1 \<or> r = 1 \<and> c = 1)
          \<lparr>rows = 2, columns = 2, locate = GridPosition_new 2 2, data = (\<lambda>p. - 1),
           c_buffer = [\<lparr>cd_label = 5, cd_pos = 5\<rparr>]\<rparr> = [cs] \<and> length cs = 3)"
proof -
  let ?A = "\<lambda>r c :: int. r = 0 \<and> c = 0 \<or> r = 0 \<and> c = 1 \<or> r = 1 \<and> c = 1"
  let ?g = "\<lparr>rows = 2, columns = 2, locate = GridPosition_new 2 2, data = (\<lambda>p. - 1),
             c_buffer = [\<lparr>cd_label = 5, cd_pos = 5\<rparr>]\<rparr>"
  let ?cells = "[(1, 1), (0, 1), (1, 0), (0, 0)] :: (int \<times> int) list"
  have e: "labeling_pass ?A ?g = [[0, 1, 3]]"
    by (simp add: pass_eval)
  have so: "scan_order 2 2 ?cells" by (simp add: scan_order_def)
  have full: "pass_in_order ?A ?g ?cells = labeling_pass ?A ?g
       \<and> distinct (concat (labeling_pass ?A ?g))
       \<and> set (concat (labeling_pass ?A ?g)) = active_cells ?A 2 2
       \<and> [] \<notin> set (labeling_pass ?A ?g)
       \<and> (\<forall>c \<in> set (labeling_pass ?A ?g). \<forall>p \<in> set c. set c = {q. (p, q) \<in> connected4 ?A 2 2})
       \<and> (\<forall>p q. active_cells ?A 2 2 = {p, q}
                  \<and> \<bar>p div 2 - q div 2\<bar> = 1 \<and> \<bar>p mod 2 - q mod 2\<bar> = 1
             \<longrightarrow> set (labeling_pass ?A ?g) = {[p], [q]} \<and> length (labeling_pass ?A ?g) = 2)
       \<and> (\<forall>r c. 0 \<le> r \<and> r + 1 < 2 \<and> 0 \<le> c \<and> c + 1 < 2
                  \<and> active_cells ?A 2 2 = {r * 2 + c, r * 2 + (c + 1), (r + 1) * 2 + (c + 1)}
             \<longrightarrow> (\<exists>cs. labeling_pass ?A ?g = [cs]
                    \<and> set cs = {r * 2 + c, r * 2 + (c + 1), (r + 1) * 2 + (c + 1)}
                    \<and> length cs = 3))"
    by (rule labeling_pass_components [OF _ _ _ _ _ _ so]) (simp_all add: INT_MAX_def)
  note full' = full [unfolded e]
  have p: "pass_in_order ?A ?g ?cells = [[0, 1, 3]]" by (rule full' [THEN conjunct1])
  have "set (concat [[0, 1, 3]]) = active_cells ?A 2 2"
    by (rule full' [THEN conjunct2, THEN conjunct2, THEN conjunct1])
  then have a: "active_cells ?A 2 2 = {0, 1, 3}" by simp
  have "set [0, 1, 3] = {q. (0, q) \<in> connected4 ?A 2 2}"
    by (rule full' [THEN conjunct2, THEN conjunct2, THEN conjunct2, THEN conjunct2,
          THEN conjunct1, rule_format, of "[0, 1, 3]" 0]) simp_all
  then have b: "{q. (0, q) \<in> connected4 ?A 2 2} = {0, 1, 3}" by simp
  have "\<exists>cs. labeling_pass ?A ?g = [cs]
            \<and> set cs = {0 * 2 + 0, 0 * 2 + (0 + 1), (0 + 1) * 2 + (0 + 1)} \<and> length cs = 3"
    by (rule full [THEN conjunct2, THEN conjunct2, THEN conjunct2, THEN conjunct2,
          THEN conjunct2, THEN conjunct2, THEN spec, THEN spec, THEN mp]) (simp add: a)
  then have t: "\<exists>cs. labeling_pass ?A ?g = [cs] \<and> length cs = 3" by blast
  from p a b t show ?thesis by (intro conjI)
qed

section \<open>Results on ClusterHeap\<close>

subsection \<open>The invariant of the two tables\<close>

















lemma point_pos_charge [simp]: "point_pos g (cp\<lparr>cp_charge := c\<rparr>) = point_pos g cp"
  by (simp add: point_pos_def)







subsection \<open>What AddCluster does\<close>


lemma earliest_le_max: "earliest old \<le> FLT_MAX"
  unfolding earliest_def by (induction old) (auto simp: min_le_iff_disj)















subsection \<open>Reachable states of a heap\<close>

















section \<open>Results on HKBaseSensor\<close>





lemma tile_active_quiet:
  assumes "\<not> IsActive m"
  shows "\<not> tile_active m seg_x seg_y pos_x pos_y"
proof
  assume "tile_active m seg_x seg_y pos_x pos_y"
  then obtain pix where p: "sensor_pixel m seg_x seg_y pos_x pos_y = Some pix" "charge pix \<noteq> 0"
    by (auto simp: tile_active_def split: option.splits)
  from p(1) have "pix \<in> set (pixels m)"
    by (auto simp: sensor_pixel_def Let_def split: if_splits)
  with p(2) assms show False by (auto simp: IsActive_def)
qed









end
